theory Spec2Isabelle
  imports Main "HOL-Library.Multiset"
begin

section \<open>Data model of package duplicate\<close>

text \<open>
  \<^verbatim>\<open>type FileInfo struct { Path string; Size int64; Hash string }\<close>.
  \<open>Size\<close> is only compared, used as a map key and printed, never computed with, so it is
  an \<open>int\<close>. An absent hash is Go's zero value, the empty string.

  The pipeline works on \<^verbatim>\<open>[]*FileInfo\<close>. Every pointer comes from a fresh
  \<^verbatim>\<open>&FileInfo{...}\<close> in \<^verbatim>\<open>walkDirs\<close>, and the grouping steps keep each pointer
  at most once, so a position of the list stands for one pointer and the list holds the
  records the pointers refer to.
\<close>

record FileInfo =
  Path :: string
  Size :: int
  Hash :: string

type_synonym FileInfos = "FileInfo list"

subsection \<open>Go maps\<close>

text \<open>
  A Go map is a list of entries with pairwise different keys, in the order in which the
  keys were first stored. \<^verbatim>\<open>m[k]\<close> on a missing key gives the zero value of the
  element type, \<^verbatim>\<open>m[k] = v\<close> overwrites or adds, \<^verbatim>\<open>delete(m, k)\<close> removes.
\<close>

type_synonym ('k, 'v) gomap = "('k \<times> 'v) list"

definition index :: "'v \<Rightarrow> ('k, 'v) gomap \<Rightarrow> 'k \<Rightarrow> 'v" where
  "index zero m k = (case map_of m k of None \<Rightarrow> zero | Some v \<Rightarrow> v)"

fun assign :: "'k \<Rightarrow> 'v \<Rightarrow> ('k, 'v) gomap \<Rightarrow> ('k, 'v) gomap" where
  "assign k v [] = [(k, v)]"
| "assign k v (e # m) = (if fst e = k then (k, v) # m else e # assign k v m)"

definition delete :: "'k \<Rightarrow> ('k, 'v) gomap \<Rightarrow> ('k, 'v) gomap" where
  "delete k m = filter (\<lambda>e. fst e \<noteq> k) m"

definition keys :: "('k, 'v) gomap \<Rightarrow> 'k list" where
  "keys m = map fst m"

text \<open>
  \<^verbatim>\<open>for k, v := range m\<close> visits every key once, in an order the language leaves open.
  The order is a parameter of every function that ranges over a map: a function that
  rearranges the list of keys. Each run of the program is one choice of such functions.
\<close>

definition reorders :: "('k list \<Rightarrow> 'k list) \<Rightarrow> bool" where
  "reorders rng \<longleftrightarrow> (\<forall>ks. mset (rng ks) = mset ks)"

type_synonym DupList = "(string, FileInfos) gomap"

subsection \<open>groupBySize\<close>

text \<open>First loop: \<^verbatim>\<open>group[file.Size] = append(group[file.Size], file)\<close>.\<close>

fun size_fill :: "FileInfos \<Rightarrow> (int, FileInfos) gomap \<Rightarrow> (int, FileInfos) gomap" where
  "size_fill [] grp = grp"
| "size_fill (file # files) grp =
     size_fill files (assign (Size file) (index [] grp (Size file) @ [file]) grp)"

text \<open>
  Second loop, over \<^verbatim>\<open>range group\<close>: a group of length 1 is deleted from the map, any
  other group is appended to \<^verbatim>\<open>newFiles\<close>.
\<close>

fun size_sweep ::
  "int list \<Rightarrow> (int, FileInfos) gomap \<Rightarrow> FileInfos \<Rightarrow> (int, FileInfos) gomap \<times> FileInfos" where
  "size_sweep [] grp newFiles = (grp, newFiles)"
| "size_sweep (k # ks) grp newFiles =
     (let v = index [] grp k in
      if length v = 1 then size_sweep ks (delete k grp) newFiles
      else size_sweep ks grp (newFiles @ v))"

definition groupBySize :: "(int list \<Rightarrow> int list) \<Rightarrow> FileInfos \<Rightarrow> FileInfos" where
  "groupBySize rng files =
     (if length files = 0 then []
      else let grp = size_fill files [] in
           snd (size_sweep (rng (keys grp)) grp []))"

subsection \<open>groupByHash\<close>

text \<open>
  First loop: records with an empty hash are passed over; the others are appended to
  their group and counted. The counter is Go's \<^verbatim>\<open>int\<close>; it counts elements of a slice
  and cannot reach its upper limit.
\<close>

fun hash_fill ::
  "FileInfos \<Rightarrow> DupList \<times> (string, int) gomap \<Rightarrow> DupList \<times> (string, int) gomap" where
  "hash_fill [] gc = gc"
| "hash_fill (file # files) gc =
     (if Hash file \<noteq> []
      then hash_fill files
             (assign (Hash file) (index [] (fst gc) (Hash file) @ [file]) (fst gc),
              assign (Hash file) (index 0 (snd gc) (Hash file) + 1) (snd gc))
      else hash_fill files gc)"

text \<open>Second loop, over \<^verbatim>\<open>range counts\<close>: a hash counted once is deleted from the groups.\<close>

fun hash_sweep :: "string list \<Rightarrow> (string, int) gomap \<Rightarrow> DupList \<Rightarrow> DupList" where
  "hash_sweep [] counts grp = grp"
| "hash_sweep (k # ks) counts grp =
     (if index 0 counts k = 1 then hash_sweep ks counts (delete k grp)
      else hash_sweep ks counts grp)"

text \<open>The \<^verbatim>\<open>nil\<close> map returned for no input reads like the empty map.\<close>

definition groupByHash :: "(string list \<Rightarrow> string list) \<Rightarrow> FileInfos \<Rightarrow> DupList" where
  "groupByHash rng files =
     (if length files = 0 then []
      else let gc = hash_fill files ([], []) in
           hash_sweep (rng (keys (snd gc))) (snd gc) (fst gc))"


section \<open>Errors\<close>

text \<open>
  Go's \<^verbatim>\<open>error\<close> values of the two packages. \<open>OsError\<close> stands for an error made by the
  standard library (os, io, path/filepath); the others are made by the program:
  \<open>ErrNoDirs\<close> by \<^verbatim>\<open>walkDirs\<close> for an empty list of directories, \<open>HashFailed\<close> and
  \<open>CleanFailed\<close> by the \<^verbatim>\<open>fmt.Errorf\<close> calls of \<^verbatim>\<open>calcHashs\<close> and \<^verbatim>\<open>Clean\<close> (they
  format the path and the underlying error), \<open>ErrNoDuplicates\<close> by \<^verbatim>\<open>saveList\<close>,
  \<open>OpenFailed\<close> and \<open>FormatError\<close> by \<^verbatim>\<open>readList\<close>. \<open>Joined\<close> is the value of
  \<^verbatim>\<open>errors.Join\<close>.
\<close>

datatype error =
    ErrNoDirs
  | ErrNoDuplicates
  | OsError string
  | HashFailed string error
  | CleanFailed string error
  | OpenFailed string error
  | FormatError string
  | Joined "error list"

text \<open>
  \<^verbatim>\<open>errors.Join(errs...)\<close> is \<^verbatim>\<open>nil\<close> when no error is left after dropping the
  \<^verbatim>\<open>nil\<close> ones; the lists joined here never hold \<^verbatim>\<open>nil\<close>.
\<close>

definition errors_Join :: "error list \<Rightarrow> error option" where
  "errors_Join errs = (if errs = [] then None else Some (Joined errs))"

section \<open>walkDirs\<close>

text \<open>
  The part of \<^verbatim>\<open>fs.FileInfo\<close> the callback reads: \<^verbatim>\<open>IsDir()\<close>, \<^verbatim>\<open>Mode().IsRegular()\<close>
  and \<^verbatim>\<open>Size()\<close>.
\<close>

record FileStat =
  stat_IsDir :: bool
  stat_IsRegular :: bool
  stat_Size :: int

text \<open>The callback returns \<^verbatim>\<open>nil\<close> or \<^verbatim>\<open>filepath.SkipDir\<close>, nothing else.\<close>

datatype WalkRet = RetNil | SkipDir

text \<open>
  \<^verbatim>\<open>filepath.Walk\<close> belongs to the standard library. What it does at a root is taken as
  given, in the most general shape: it either returns, with or without an error, or calls
  the callback with a path and either an error or the entry's \<^verbatim>\<open>FileInfo\<close>, and goes on
  according to what the callback returned. It reaches the collected files only through
  the callback. A walk is finite: \<^verbatim>\<open>filepath.Walk\<close> does not follow symbolic links.
\<close>

datatype walk =
    Return "error option"
  | Visit string "error + FileStat" "WalkRet \<Rightarrow> walk"

text \<open>
  \<^verbatim>\<open>filepath.Walk\<close> begins with \<^verbatim>\<open>os.Lstat\<close> of the root. When that fails it calls the
  callback with the root and the error, and returns what the callback returned, with
  \<^verbatim>\<open>SkipDir\<close> turned into \<^verbatim>\<open>nil\<close>: whatever the callback of \<^verbatim>\<open>walkDirs\<close> answers,
  \<^verbatim>\<open>filepath.Walk\<close> returns \<^verbatim>\<open>nil\<close>.
\<close>

definition Walk_missing :: "string \<Rightarrow> error \<Rightarrow> walk" where
  "Walk_missing root err = Visit root (Inl err) (\<lambda>ret. Return None)"

text \<open>
  A walk that returns \<^verbatim>\<open>nil\<close> whatever the callback answers. The only errors that
  \<^verbatim>\<open>filepath.Walk\<close> returns are those the callback has returned, \<^verbatim>\<open>SkipDir\<close> apart.
\<close>

primrec returns_nil :: "walk \<Rightarrow> bool" where
  "returns_nil (Return e) = (e = None)"
| "returns_nil (Visit path r k) = (returns_nil (k RetNil) \<and> returns_nil (k SkipDir))"

text \<open>
  The standard library and the file system, as the detection pass sees them:
  \<^verbatim>\<open>filepath.Abs\<close>, \<^verbatim>\<open>filepath.Walk\<close> at an absolute root, \<^verbatim>\<open>filepath.Base\<close>,
  \<^verbatim>\<open>strings.EqualFold\<close>, \<^verbatim>\<open>os.Open\<close> (an error, or a handle; a handle is what
  \<^verbatim>\<open>io.Copy\<close> gets out of it: a read error or the bytes of the file), and
  \<^verbatim>\<open>hex.EncodeToString(h.Sum(nil))\<close> for a digest \<open>h\<close> fed with the bytes.
  They are functions of the path: the file system is taken not to change during a pass.
\<close>

datatype HashAlg = MD5 | SHA1 | SHA256 | SHA512

record sys =
  filepath_Abs :: "string \<Rightarrow> error + string"
  filepath_Walk :: "string \<Rightarrow> walk"
  filepath_Base :: "string \<Rightarrow> string"
  strings_EqualFold :: "string \<Rightarrow> string \<Rightarrow> bool"
  os_Open :: "string \<Rightarrow> error + (error + string)"
  hex_Sum :: "HashAlg \<Rightarrow> string \<Rightarrow> string"

text \<open>The callback given to \<^verbatim>\<open>filepath.Walk\<close>; \<open>files\<close> is the captured slice.\<close>

definition walkFn ::
  "sys \<Rightarrow> string \<Rightarrow> error + FileStat \<Rightarrow> FileInfos \<Rightarrow> WalkRet \<times> FileInfos" where
  "walkFn s path r files =
     (case r of
        Inl err \<Rightarrow> (SkipDir, files)
      | Inr info \<Rightarrow>
          if stat_IsDir info \<and>
             (strings_EqualFold s (filepath_Base s path) ''.git'' \<or>
              strings_EqualFold s (filepath_Base s path) ''.svn'')
          then (SkipDir, files)
          else if \<not> stat_IsRegular info then (RetNil, files)
          else if stat_Size info > 0
          then (RetNil, files @ [\<lparr>Path = path, Size = stat_Size info, Hash = []\<rparr>])
          else (RetNil, files))"

primrec run_walk :: "sys \<Rightarrow> walk \<Rightarrow> FileInfos \<Rightarrow> error option \<times> FileInfos" where
  "run_walk s (Return e) = (\<lambda>files. (e, files))"
| "run_walk s (Visit path r k) =
     (\<lambda>files. case walkFn s path r files of (ret, files') \<Rightarrow> run_walk s (k ret) files')"

text \<open>
  The loop over \<^verbatim>\<open>dirs\<close>: a root whose absolute path cannot be made is logged and
  passed over; an error returned by \<^verbatim>\<open>filepath.Walk\<close> ends \<^verbatim>\<open>walkDirs\<close>.
\<close>

fun walk_roots :: "sys \<Rightarrow> string list \<Rightarrow> FileInfos \<Rightarrow> error + FileInfos" where
  "walk_roots s [] files = Inr files"
| "walk_roots s (dir # dirs) files =
     (case filepath_Abs s dir of
        Inl err \<Rightarrow> walk_roots s dirs files
      | Inr absDir \<Rightarrow>
          (case run_walk s (filepath_Walk s absDir) files of
             (Some err, files') \<Rightarrow> Inl (Joined [err])
           | (None, files') \<Rightarrow> walk_roots s dirs files'))"

definition walkDirs :: "sys \<Rightarrow> string list \<Rightarrow> error + FileInfos" where
  "walkDirs s dirs =
     (if length dirs = 0 then Inl (Joined [ErrNoDirs]) else walk_roots s dirs [])"

section \<open>Hashing\<close>

text \<open>
  \<^verbatim>\<open>strings.ToLower\<close> on the bytes of the name: the letters A to Z go to a to z. On a
  name with bytes beyond ASCII Go's result is another one, but no character beyond ASCII
  has s, h or a as its lower case, so \<^verbatim>\<open>newHash\<close> chooses the same digest.
\<close>

definition is_upper :: "char \<Rightarrow> bool" where
  "is_upper c \<longleftrightarrow> 65 \<le> (of_char c :: nat) \<and> (of_char c :: nat) \<le> 90"

definition lower_char :: "char \<Rightarrow> char" where
  "lower_char c = (if is_upper c then char_of (of_char c + 32 :: nat) else c)"

definition ToLower :: "string \<Rightarrow> string" where
  "ToLower s = map lower_char s"

definition newHash :: "string \<Rightarrow> HashAlg" where
  "newHash hashName =
     (let n = ToLower hashName in
      if n = ''sha1'' then SHA1
      else if n = ''sha256'' then SHA256
      else if n = ''sha512'' then SHA512
      else MD5)"

text \<open>
  Two names are the same but for case when they have the same length and, position by
  position, the same character or a capital letter and its small letter.
\<close>

definition same_letter :: "char \<Rightarrow> char \<Rightarrow> bool" where
  "same_letter c d \<longleftrightarrow>
     c = d \<or> (is_upper c \<and> (of_char d :: nat) = of_char c + 32)
           \<or> (is_upper d \<and> (of_char c :: nat) = of_char d + 32)"

definition same_but_case :: "string \<Rightarrow> string \<Rightarrow> bool" where
  "same_but_case a b \<longleftrightarrow> list_all2 same_letter a b"

definition calcHash :: "sys \<Rightarrow> string \<Rightarrow> HashAlg \<Rightarrow> error + string" where
  "calcHash s file h =
     (case os_Open s file of
        Inl err \<Rightarrow> Inl (Joined [err])
      | Inr f \<Rightarrow>
          (case f of
             Inl err \<Rightarrow> Inl (Joined [err])
           | Inr bytes \<Rightarrow> Inr (hex_Sum s h bytes)))"

text \<open>
  The body of one goroutine of \<^verbatim>\<open>calcHashs\<close>: the record it was started with, with the
  hash stored on success, and the error it appends to \<^verbatim>\<open>errs\<close> on failure.
\<close>

definition hash_task :: "sys \<Rightarrow> string \<Rightarrow> FileInfo \<Rightarrow> FileInfo \<times> error option" where
  "hash_task s hashName f =
     (let h = newHash hashName in
      case calcHash s (Path f) h of
        Inl err \<Rightarrow> (f, Some (HashFailed (Path f) err))
      | Inr hashValue \<Rightarrow> (f\<lparr>Hash := hashValue\<rparr>, None))"

definition task_errors :: "(FileInfo \<times> error option) list \<Rightarrow> error list" where
  "task_errors done = concat (map (\<lambda>d. case snd d of None \<Rightarrow> [] | Some e \<Rightarrow> [e]) done)"

text \<open>
  \<^verbatim>\<open>calcHashs\<close> starts one goroutine for each record and waits for all of them. Each
  goroutine writes its own record only, and appends to \<^verbatim>\<open>errs\<close> under the mutex; the
  order of the appends is the scheduler's, the parameter \<open>sched\<close>. The records are
  returned as they are after the wait.

  The channel of capacity \<open>n\<close> admits at most \<open>n\<close> goroutines at a time. With \<open>n = 0\<close>
  it admits none and the wait never ends; with \<open>n < 0\<close> making it panics. Both are the
  result \<open>None\<close>. The test for an empty slice comes first.
\<close>

definition calcHashs ::
  "sys \<Rightarrow> (error list \<Rightarrow> error list) \<Rightarrow> FileInfos \<Rightarrow> string \<Rightarrow> int
     \<Rightarrow> (FileInfos \<times> error option) option" where
  "calcHashs s sched files hashName n =
     (if length files = 0 then Some (files, None)
      else if n < 1 then None
      else let done = map (hash_task s hashName) files in
           Some (map fst done, errors_Join (sched (task_errors done))))"

section \<open>List and Clean\<close>

text \<open>
  \<^verbatim>\<open>List\<close> returns a pair, of which both parts can be set at once; \<open>None\<close> is a call
  that does not return.
\<close>

definition List ::
  "sys \<Rightarrow> (int list \<Rightarrow> int list) \<Rightarrow> (error list \<Rightarrow> error list) \<Rightarrow> (string list \<Rightarrow> string list)
     \<Rightarrow> string list \<Rightarrow> string \<Rightarrow> int \<Rightarrow> (DupList \<times> error option) option" where
  "List s rngS sched rngH dirs hashName n =
     (case walkDirs s dirs of
        Inl err \<Rightarrow> Some ([], Some err)
      | Inr fs \<Rightarrow>
          (let fs1 = groupBySize rngS fs in
           case calcHashs s sched fs1 hashName n of
             None \<Rightarrow> None
           | Some (fs2, err) \<Rightarrow> Some (groupByHash rngH fs2, err)))"

text \<open>
  \<^verbatim>\<open>os.Remove\<close> is a parameter: from a path and the state of the file system to an
  error or none, and the state afterwards.
\<close>

fun clean_loop ::
  "(string \<Rightarrow> 'fs \<Rightarrow> error option \<times> 'fs) \<Rightarrow> string list \<Rightarrow> int \<Rightarrow> error list \<Rightarrow> 'fs
     \<Rightarrow> int \<times> error list \<times> 'fs" where
  "clean_loop os_Remove [] n errs fs = (n, errs, fs)"
| "clean_loop os_Remove (file # files) n errs fs =
     (case os_Remove file fs of
        (Some err, fs') \<Rightarrow> clean_loop os_Remove files n (errs @ [CleanFailed file err]) fs'
      | (None, fs') \<Rightarrow> clean_loop os_Remove files (n + 1) errs fs')"

definition Clean ::
  "(string \<Rightarrow> 'fs \<Rightarrow> error option \<times> 'fs) \<Rightarrow> string list \<Rightarrow> 'fs
     \<Rightarrow> (int \<times> error option) \<times> 'fs" where
  "Clean os_Remove files fs =
     (if length files = 0 then ((0, None), fs)
      else case clean_loop os_Remove files 0 [] fs of
             (n, errs, fs') \<Rightarrow> ((n, errors_Join errs), fs'))"

text \<open>
  What the claim about \<^verbatim>\<open>Clean\<close> is measured against: every path of the list is
  tried, in order, each on the state the one before has left.
\<close>

fun attempts ::
  "(string \<Rightarrow> 'fs \<Rightarrow> error option \<times> 'fs) \<Rightarrow> string list \<Rightarrow> 'fs
     \<Rightarrow> (string \<times> error option) list \<times> 'fs" where
  "attempts os_Remove [] fs = ([], fs)"
| "attempts os_Remove (file # files) fs =
     (case os_Remove file fs of
        (r, fs') \<Rightarrow> (case attempts os_Remove files fs' of (rs, fs'') \<Rightarrow> ((file, r) # rs, fs'')))"


section \<open>Package cmd: the list file\<close>

definition splitLine :: string where
  "splitLine = ''--------''"

definition TAB :: char where
  "TAB = CHR 0x09"

definition NL :: char where
  "NL = CHR 0x0A"

definition CR :: char where
  "CR = CHR 0x0D"

text \<open>The verb \<^verbatim>\<open>%d\<close> of \<^verbatim>\<open>fmt.Sprintf\<close> on an \<^verbatim>\<open>int64\<close>: decimal, with a minus sign.\<close>

definition digit :: "nat \<Rightarrow> char" where
  "digit n = char_of (48 + n)"

fun decimal :: "nat \<Rightarrow> string" where
  "decimal n = (if n < 10 then [digit n] else decimal (n div 10) @ [digit (n mod 10)])"

declare decimal.simps [simp del]

definition fmt_d :: "int \<Rightarrow> string" where
  "fmt_d i = (if i < 0 then CHR ''-'' # decimal (nat (- i)) else decimal (nat i))"

text \<open>\<^verbatim>\<open>fmt.Sprintf("%s\t%dB\t%s\n", s.Path, s.Size, s.Hash)\<close>\<close>

definition record_line :: "FileInfo \<Rightarrow> string" where
  "record_line r = Path r @ [TAB] @ fmt_d (Size r) @ ''B'' @ [TAB] @ Hash r @ [NL]"

definition group_text :: "FileInfos \<Rightarrow> string" where
  "group_text v = splitLine @ [NL] @ concat (map record_line v)"

text \<open>
  \<^verbatim>\<open>saveList\<close>: \<open>Inl\<close> is the error returned, \<open>Inr\<close> the text written to the file \<open>f\<close>
  (and to the standard output) when \<^verbatim>\<open>nil\<close> is returned. \<^verbatim>\<open>os.OpenFile\<close> for writing
  is the parameter \<open>os_Create\<close>. The source drops the results of \<^verbatim>\<open>io.WriteString\<close>;
  the writes are taken to succeed.
\<close>

definition saveList ::
  "(string \<Rightarrow> error option) \<Rightarrow> (string list \<Rightarrow> string list) \<Rightarrow> string \<Rightarrow> DupList
     \<Rightarrow> error + string" where
  "saveList os_Create rng f l =
     (if length l = 0 then Inl ErrNoDuplicates
      else case os_Create f of
             Some err \<Rightarrow> Inl err
           | None \<Rightarrow> Inr (concat (map (\<lambda>k. group_text (index [] l k)) (rng (keys l)))))"

text \<open>
  \<^verbatim>\<open>bufio.Scanner\<close> with its default split function \<^verbatim>\<open>ScanLines\<close>: the input is cut at
  every newline, input left after the last newline is a line too unless it is empty,
  and one carriage return at the end of a line is dropped. A line that does not fit
  the buffer of \<^verbatim>\<open>bufio.MaxScanTokenSize\<close> bytes together with its newline ends the
  scan; \<^verbatim>\<open>readList\<close> does not look at \<^verbatim>\<open>scanner.Err()\<close>.
\<close>

definition MaxScanTokenSize :: nat where
  "MaxScanTokenSize = 64 * 1024"

fun raw_lines :: "string \<Rightarrow> string \<Rightarrow> string list" where
  "raw_lines cur [] = (if cur = [] then [] else [cur])"
| "raw_lines cur (c # cs) = (if c = NL then cur # raw_lines [] cs else raw_lines (cur @ [c]) cs)"

definition dropCR :: "string \<Rightarrow> string" where
  "dropCR line = (if line \<noteq> [] \<and> last line = CR then butlast line else line)"

definition scan_lines :: "string \<Rightarrow> string list" where
  "scan_lines text =
     map dropCR (takeWhile (\<lambda>line. length line < MaxScanTokenSize) (raw_lines [] text))"

text \<open>\<^verbatim>\<open>strings.Split(line, "\t")\<close>: the fields between the tabs, one more than tabs.\<close>

fun Split :: "string \<Rightarrow> char \<Rightarrow> string list" where
  "Split [] sep = [[]]"
| "Split (c # cs) sep =
     (if c = sep then [] # Split cs sep
      else (case Split cs sep of [] \<Rightarrow> [[c]] | x # xs \<Rightarrow> (c # x) # xs))"

text \<open>The loop over the lines of one file \<open>f\<close> of \<^verbatim>\<open>readList\<close>.\<close>

fun read_lines :: "string \<Rightarrow> string list \<Rightarrow> string list \<Rightarrow> error + string list" where
  "read_lines f [] delList = Inr delList"
| "read_lines f (line # lines) delList =
     (if line \<noteq> splitLine
      then (let s = Split line TAB in
            if length s < 1 then Inl (FormatError f)
            else read_lines f lines (delList @ [s ! 0]))
      else read_lines f lines delList)"

text \<open>
  The loop over the files; \<^verbatim>\<open>os.OpenFile\<close> for reading is the parameter \<open>os_OpenFile\<close>:
  an error, or the bytes the scanner reads.
\<close>

fun read_files ::
  "(string \<Rightarrow> error + string) \<Rightarrow> string list \<Rightarrow> string list \<Rightarrow> error + string list" where
  "read_files os_OpenFile [] delList = Inr delList"
| "read_files os_OpenFile (f # files) delList =
     (case os_OpenFile f of
        Inl err \<Rightarrow> Inl (OpenFailed f err)
      | Inr text \<Rightarrow>
          (case read_lines f (scan_lines text) delList of
             Inl err \<Rightarrow> Inl err
           | Inr delList' \<Rightarrow> read_files os_OpenFile files delList'))"

definition readList :: "(string \<Rightarrow> error + string) \<Rightarrow> string list \<Rightarrow> error + string list" where
  "readList os_OpenFile files = read_files os_OpenFile files []"

text \<open>
  A reader that keeps the group boundaries: a delimiter line opens a group, which takes
  the first field of every line up to the next delimiter. The first component holds the
  lines before the first delimiter.
\<close>

fun parse_groups :: "string list \<Rightarrow> string list \<times> string list list" where
  "parse_groups [] = ([], [])"
| "parse_groups (line # lines) =
     (case parse_groups lines of
        (loose, groups) \<Rightarrow>
          if line = splitLine then ([], loose # groups)
          else (hd (Split line TAB) # loose, groups))"


section \<open>Invariants of the grouping loops\<close>

text \<open>
  After the first loop of either grouping function has seen the records \<open>fs\<close>, the map
  holds, under every key that occurs, the records with that key in their order.
\<close>

definition grouped :: "('a \<Rightarrow> 'k) \<Rightarrow> 'a list \<Rightarrow> ('k, 'a list) gomap \<Rightarrow> bool" where
  "grouped key fs m \<longleftrightarrow>
     distinct (keys m) \<and> set (keys m) = key ` set fs \<and>
     (\<forall>k. index [] m k = filter (\<lambda>f. key f = k) fs)"

text \<open>
  The first loop of \<^verbatim>\<open>groupByHash\<close> keeps the counters in step with the groups.
\<close>

definition hash_inv :: "FileInfos \<Rightarrow> DupList \<times> (string, int) gomap \<Rightarrow> bool" where
  "hash_inv fs gc \<longleftrightarrow>
     grouped Hash (filter (\<lambda>f. Hash f \<noteq> []) fs) (fst gc) \<and>
     keys (snd gc) = keys (fst gc) \<and>
     (\<forall>k. index 0 (snd gc) k = int (length (index [] (fst gc) k)))"

section \<open>Notions the statements use\<close>

text \<open>
  Of the attempts of \<^verbatim>\<open>Clean\<close>: how many succeeded, and the errors \<^verbatim>\<open>Clean\<close> makes
  for those that failed, in order.
\<close>

definition successes :: "(string \<times> error option) list \<Rightarrow> nat" where
  "successes rs = length (filter (\<lambda>a. snd a = None) rs)"

definition failures :: "(string \<times> error option) list \<Rightarrow> error list" where
  "failures rs = concat (map (\<lambda>a. case snd a of None \<Rightarrow> [] | Some e \<Rightarrow> [CleanFailed (fst a) e]) rs)"

text \<open>
  A record as \<^verbatim>\<open>walkDirs\<close> makes it: a size above zero and no hash yet.
\<close>

definition fresh :: "FileInfo \<Rightarrow> bool" where
  "fresh r \<longleftrightarrow> 0 < Size r \<and> Hash r = []"

text \<open>
  Hashing the file of a record fails; the records after all goroutines are done; the
  errors they have appended, in the scheduler's order.
\<close>

definition hash_fails :: "sys \<Rightarrow> string \<Rightarrow> FileInfo \<Rightarrow> bool" where
  "hash_fails s hashName f \<longleftrightarrow> isl (calcHash s (Path f) (newHash hashName))"

definition hashed :: "sys \<Rightarrow> string \<Rightarrow> FileInfos \<Rightarrow> FileInfos" where
  "hashed s hashName files = map (\<lambda>f. fst (hash_task s hashName f)) files"

definition collected :: "sys \<Rightarrow> (error list \<Rightarrow> error list) \<Rightarrow> string \<Rightarrow> FileInfos \<Rightarrow> error list" where
  "collected s sched hashName files = sched (task_errors (map (hash_task s hashName) files))"

text \<open>
  A line of the list file without its newline, the first field of a line, and all paths
  of a result.
\<close>

definition line_body :: "FileInfo \<Rightarrow> string" where
  "line_body r = Path r @ [TAB] @ fmt_d (Size r) @ ''B'' @ [TAB] @ Hash r"

definition first_field :: "string \<Rightarrow> string" where
  "first_field line = hd (Split line TAB)"

definition paths_of :: "DupList \<Rightarrow> string list" where
  "paths_of l = concat (map (\<lambda>e. map Path (snd e)) l)"

text \<open>
  The list format has no escaping. A record survives writing and reading when its path
  holds neither a tab nor a newline, its hash holds no newline, and its line with the
  newline fits the scanner's buffer.
\<close>

definition plain_record :: "FileInfo \<Rightarrow> bool" where
  "plain_record r \<longleftrightarrow>
     TAB \<notin> set (Path r) \<and> NL \<notin> set (Path r) \<and> NL \<notin> set (Hash r) \<and>
     length (record_line r) \<le> MaxScanTokenSize"

definition writable :: "DupList \<Rightarrow> bool" where
  "writable l \<longleftrightarrow> list_all (\<lambda>e. list_all plain_record (snd e)) l"

text \<open>
  The lines \<^verbatim>\<open>saveList\<close> writes when it ranges over the keys \<open>ks\<close>, and the paths of
  the groups in that order.
\<close>

definition list_lines :: "string list \<Rightarrow> DupList \<Rightarrow> string list" where
  "list_lines ks l = concat (map (\<lambda>k. splitLine # map line_body (index [] l k)) ks)"

definition group_paths :: "string list \<Rightarrow> DupList \<Rightarrow> string list list" where
  "group_paths ks l = map (\<lambda>k. map Path (index [] l k)) ks"

section \<open>A scenario\<close>

text \<open>
  A directory \<^verbatim>\<open>/r\<close> with the regular files A, B, C and E of 10 bytes, D of 20 bytes
  and one empty file, and an entry that cannot be read. A and B have the same content,
  C another one, E cannot be opened. No other root exists, and the absolute path
  of the empty name cannot be made. The digest is a stand-in with two values.
\<close>

definition fileA :: FileInfo where
  "fileA = \<lparr>Path = ''/r/A'', Size = 10, Hash = ''aa''\<rparr>"

definition fileB :: FileInfo where
  "fileB = \<lparr>Path = ''/r/B'', Size = 10, Hash = ''aa''\<rparr>"

definition fileC :: FileInfo where
  "fileC = \<lparr>Path = ''/r/C'', Size = 10, Hash = ''cc''\<rparr>"

definition fileD :: FileInfo where
  "fileD = \<lparr>Path = ''/r/D'', Size = 20, Hash = []\<rparr>"

definition reg_file :: "int \<Rightarrow> FileStat" where
  "reg_file n = \<lparr>stat_IsDir = False, stat_IsRegular = True, stat_Size = n\<rparr>"

definition directory :: FileStat where
  "directory = \<lparr>stat_IsDir = True, stat_IsRegular = False, stat_Size = 4096\<rparr>"

definition scenario_walk :: walk where
  "scenario_walk =
     Visit ''/r'' (Inr directory) (\<lambda>ret. case ret of SkipDir \<Rightarrow> Return None | RetNil \<Rightarrow>
     Visit ''/r/A'' (Inr (reg_file 10)) (\<lambda>ret.
     Visit ''/r/B'' (Inr (reg_file 10)) (\<lambda>ret.
     Visit ''/r/C'' (Inr (reg_file 10)) (\<lambda>ret.
     Visit ''/r/D'' (Inr (reg_file 20)) (\<lambda>ret.
     Visit ''/r/E'' (Inr (reg_file 10)) (\<lambda>ret.
     Visit ''/r/empty'' (Inr (reg_file 0)) (\<lambda>ret.
     Visit ''/r/locked'' (Inl (OsError ''permission denied'')) (\<lambda>ret.
     Return None))))))))"

definition scenario_sys :: sys where
  "scenario_sys =
     \<lparr>filepath_Abs = (\<lambda>dir. if dir = [] then Inl (OsError ''getwd failed'') else Inr dir),
      filepath_Walk = (\<lambda>root. if root = ''/r'' then scenario_walk
                               else Walk_missing root (OsError ''no such file or directory'')),
      filepath_Base = (\<lambda>path. path),
      strings_EqualFold = (\<lambda>a b. ToLower a = ToLower b),
      os_Open = (\<lambda>path. if path = ''/r/E'' then Inl (OsError ''permission denied'')
                         else if path = ''/r/C'' then Inr (Inr ''yyyyyyyyyy'')
                         else Inr (Inr ''xxxxxxxxxx'')),
      hex_Sum = (\<lambda>h bytes. if bytes = ''xxxxxxxxxx'' then ''aa'' else ''cc'')\<rparr>"

definition scenario_files :: FileInfos where
  "scenario_files =
     [\<lparr>Path = ''/r/A'', Size = 10, Hash = []\<rparr>, \<lparr>Path = ''/r/B'', Size = 10, Hash = []\<rparr>,
      \<lparr>Path = ''/r/C'', Size = 10, Hash = []\<rparr>, \<lparr>Path = ''/r/D'', Size = 20, Hash = []\<rparr>,
      \<lparr>Path = ''/r/E'', Size = 10, Hash = []\<rparr>]"

text \<open>
  A file system for \<^verbatim>\<open>os.Remove\<close>: the list of the paths that exist.
\<close>

definition remove_existing :: "string \<Rightarrow> string list \<Rightarrow> error option \<times> string list" where
  "remove_existing p fs =
     (if p \<in> set fs then (None, removeAll p fs) else (Some (OsError ''no such file''), fs))"

text \<open>
  List files: creating a file succeeds, one file can be opened. A deletion list with an
  empty line; a result with a tab in a path and the text written for it; the result of
  the scenario and its text.
\<close>

definition create_ok :: "string \<Rightarrow> error option" where
  "create_ok f = None"

definition open_one :: "string \<Rightarrow> string \<Rightarrow> string \<Rightarrow> error + string" where
  "open_one name text f = (if f = name then Inr text else Inl (OsError ''no such file''))"

definition text_with_empty_line :: string where
  "text_with_empty_line = ''/r/A'' @ [NL] @ [NL] @ ''/r/B'' @ [NL]"

definition tab_list :: DupList where
  "tab_list = [(''aa'', [\<lparr>Path = ''/r/a'' @ [TAB] @ ''b'', Size = 10, Hash = ''aa''\<rparr>, fileB])]"

definition tab_text :: string where
  "tab_text = splitLine @ [NL] @ ''/r/a'' @ [TAB] @ ''b'' @ [TAB] @ ''10B'' @ [TAB] @ ''aa'' @ [NL]
                @ ''/r/B'' @ [TAB] @ ''10B'' @ [TAB] @ ''aa'' @ [NL]"

definition ab_list :: DupList where
  "ab_list = [(''aa'', [fileA, fileB])]"

definition ab_text :: string where
  "ab_text = splitLine @ [NL] @ ''/r/A'' @ [TAB] @ ''10B'' @ [TAB] @ ''aa'' @ [NL]
               @ ''/r/B'' @ [TAB] @ ''10B'' @ [TAB] @ ''aa'' @ [NL]"

section \<open>Go maps: lemmas\<close>

lemma map_of_assign: "map_of (assign k v m) = (map_of m)(k \<mapsto> v)"
  by (induction m) (auto simp: fun_eq_iff)

lemma index_assign: "index z (assign k v m) k' = (if k' = k then v else index z m k')"
  by (simp add: index_def map_of_assign)

lemma keys_assign:
  "keys (assign k v m) = (if k \<in> set (keys m) then keys m else keys m @ [k])"
  by (induction m) (auto simp: keys_def)

lemma map_of_delete: "map_of (delete k m) = (map_of m)(k := None)"
  by (induction m) (auto simp: delete_def fun_eq_iff)

lemma index_delete: "index z (delete k m) k' = (if k' = k then z else index z m k')"
  by (simp add: index_def map_of_delete)

lemma keys_delete: "keys (delete k m) = filter (\<lambda>k'. k' \<noteq> k) (keys m)"
  by (induction m) (auto simp: delete_def keys_def)

lemma index_missing: "k \<notin> set (keys m) \<Longrightarrow> index z m k = z"
  by (simp add: index_def keys_def map_of_eq_None_iff[THEN iffD2])

lemma grouped_empty: "grouped key [] []"
  by (simp add: grouped_def keys_def index_def)

lemma grouped_step:
  assumes "grouped key fs m"
  shows "grouped key (fs @ [f]) (assign (key f) (index [] m (key f) @ [f]) m)"
  using assms by (auto simp: grouped_def keys_assign index_assign)

lemma size_fill_grouped:
  "grouped Size fs g \<Longrightarrow> grouped Size (fs @ files) (size_fill files g)"
proof (induction files arbitrary: fs g)
  case Nil
  then show ?case by simp
next
  case (Cons f files)
  from grouped_step[OF Cons.prems, of f]
  have "grouped Size ((fs @ [f]) @ files)
          (size_fill files (assign (Size f) (index [] g (Size f) @ [f]) g))"
    by (rule Cons.IH)
  then show ?case by simp
qed

lemma size_sweep_snd:
  "distinct ks \<Longrightarrow>
   snd (size_sweep ks g acc) =
     acc @ concat (map (index [] g) (filter (\<lambda>k. length (index [] g k) \<noteq> 1) ks))"
proof (induction ks arbitrary: g acc)
  case Nil
  then show ?case by simp
next
  case (Cons k ks)
  have same: "\<And>k'. k' \<in> set ks \<Longrightarrow> index [] (delete k g) k' = index [] g k'"
    using Cons.prems by (auto simp: index_delete)
  have eq: "concat (map (index [] (delete k g))
              (filter (\<lambda>k'. length (index [] (delete k g) k') \<noteq> 1) ks))
          = concat (map (index [] g) (filter (\<lambda>k'. length (index [] g k') \<noteq> 1) ks))"
    using same by (metis (mono_tags, lifting) filter_cong map_eq_conv mem_Collect_eq set_filter)
  show ?case
    using Cons.prems Cons.IH[of "delete k g" acc] Cons.IH[of g "acc @ index [] g k"] eq
    by (simp add: Let_def)
qed

lemma mset_concat_groups:
  "distinct ks \<Longrightarrow>
   mset (concat (map (\<lambda>k. filter (\<lambda>f. key f = k) fs) ks)) =
     filter_mset (\<lambda>f. key f \<in> set ks) (mset fs)"
proof (induction ks)
  case Nil
  then show ?case by simp
next
  case (Cons k ks)
  then have "k \<notin> set ks" by simp
  then have "filter_mset (\<lambda>f. key f = k) (mset fs) + filter_mset (\<lambda>f. key f \<in> set ks) (mset fs)
           = filter_mset (\<lambda>f. key f \<in> set (k # ks)) (mset fs)"
    by (intro multiset_eqI) auto
  with Cons show ?case by simp
qed

lemma count_list_key:
  "count_list (map key fs) k = length (filter (\<lambda>f. key f = k) fs)"
  by (induction fs) auto

lemma reorders_set: "reorders rng \<Longrightarrow> set (rng ks) = set ks"
  by (metis reorders_def set_mset_mset)

lemma reorders_distinct: "reorders rng \<Longrightarrow> distinct (rng ks) = distinct ks"
  by (metis reorders_def mset_eq_imp_distinct_iff)

section \<open>groupBySize\<close>

lemmas gomap_eval = index_def keys_def delete_def Let_def

lemmas scenario = fileA_def fileB_def fileC_def fileD_def

lemma groupBySize_mset:
  assumes "reorders rng"
  shows "mset (groupBySize rng files) =
           filter_mset (\<lambda>f. 2 \<le> count_list (map Size files) (Size f)) (mset files)"
proof (cases "files = []")
  case True
  then show ?thesis by (simp add: groupBySize_def)
next
  case False
  define g where "g = size_fill files []"
  define P where "P = (\<lambda>k. length (filter (\<lambda>f. Size f = k) files) \<noteq> 1)"
  have G: "grouped Size files g"
    using size_fill_grouped[OF grouped_empty, of files] by (simp add: g_def)
  then have dk: "distinct (keys g)" and sk: "set (keys g) = Size ` set files"
    and ix: "\<And>k. index [] g k = filter (\<lambda>f. Size f = k) files"
    by (auto simp: grouped_def)
  have ixf: "index [] g = (\<lambda>k. filter (\<lambda>f. Size f = k) files)"
    by (rule ext) (rule ix)
  define ks where "ks = filter P (rng (keys g))"
  have dks: "distinct ks" using dk assms by (simp add: ks_def reorders_distinct)
  have sks: "set ks = {k \<in> Size ` set files. P k}"
    using sk assms by (auto simp: ks_def reorders_set)
  have "groupBySize rng files = concat (map (\<lambda>k. filter (\<lambda>f. Size f = k) files) ks)"
    using False dk assms
    by (simp add: groupBySize_def g_def[symmetric] Let_def size_sweep_snd reorders_distinct
        ixf P_def ks_def)
  then have "mset (groupBySize rng files) = filter_mset (\<lambda>f. Size f \<in> set ks) (mset files)"
    using dks by (simp add: mset_concat_groups)
  also have "\<dots> = filter_mset (\<lambda>f. 2 \<le> count_list (map Size files) (Size f)) (mset files)"
  proof (rule filter_mset_cong[OF refl])
    fix f assume "f \<in># mset files"
    then have f: "f \<in> set files" by simp
    then have "0 < length (filter (\<lambda>f'. Size f' = Size f) files)"
      by (auto simp: filter_empty_conv)
    moreover have "Size f \<in> set ks \<longleftrightarrow> length (filter (\<lambda>f'. Size f' = Size f) files) \<noteq> 1"
      using f by (auto simp: sks P_def)
    ultimately show "(Size f \<in> set ks) = (2 \<le> count_list (map Size files) (Size f))"
      unfolding count_list_key by arith
  qed
  finally show ?thesis .
qed


lemma groupBySize_count:
  assumes "reorders rng"
  shows "count_list (map Size (groupBySize rng files)) s =
           (if 2 \<le> count_list (map Size files) s then count_list (map Size files) s else 0)"
proof -
  have "count_list (map Size (groupBySize rng files)) s =
          size (filter_mset (\<lambda>f. Size f = s) (mset (groupBySize rng files)))"
    by (simp add: count_list_key flip: mset_filter)
  also have "\<dots> = size (filter_mset (\<lambda>f. Size f = s \<and> 2 \<le> count_list (map Size files) s)
                      (mset files))"
    unfolding groupBySize_mset[OF assms] filter_filter_mset
    by (rule arg_cong[where f = size], rule filter_mset_cong) auto
  also have "\<dots> = (if 2 \<le> count_list (map Size files) s then count_list (map Size files) s else 0)"
    by (simp add: count_list_key flip: mset_filter)
  finally show ?thesis .
qed

text \<open>
  C2. Whatever the order in which the second loop ranges over the map, the result of
  \<^verbatim>\<open>groupBySize\<close> holds no size exactly once, holds only records of the input, is as a
  multiset the records of the input whose size occurs at least twice in the input, and
  is empty for the empty input (the function has no error result).
\<close>

theorem groupBySize_spec:
  assumes "reorders rng"
  shows "(\<forall>s. count_list (map Size (groupBySize rng files)) s \<noteq> 1)
       \<and> set (groupBySize rng files) \<subseteq> set files
       \<and> mset (groupBySize rng files) =
           filter_mset (\<lambda>f. 2 \<le> count_list (map Size files) (Size f)) (mset files)
       \<and> groupBySize rng [] = []"
proof -
  have a: "\<forall>s. count_list (map Size (groupBySize rng files)) s \<noteq> 1"
    by (simp add: groupBySize_count[OF assms])
  have "set_mset (mset (groupBySize rng files)) \<subseteq> set_mset (mset files)"
    unfolding groupBySize_mset[OF assms] by auto
  then have b: "set (groupBySize rng files) \<subseteq> set files" by simp
  have d: "groupBySize rng [] = []" by (simp add: groupBySize_def)
  from a b d groupBySize_mset[OF assms] show ?thesis by blast
qed

theorem groupBySize_spec_witness:
  "reorders (rev :: int list \<Rightarrow> int list)
   \<and> groupBySize rev [fileA, fileD, fileB, fileC] = [fileA, fileB, fileC]
   \<and> (\<forall>s. count_list (map Size (groupBySize rev [fileA, fileD, fileB, fileC])) s \<noteq> 1)
   \<and> set (groupBySize rev [fileA, fileD, fileB, fileC]) \<subseteq> set [fileA, fileD, fileB, fileC]"
proof -
  have h: "reorders (rev :: int list \<Rightarrow> int list)" by (simp add: reorders_def)
  have v: "groupBySize rev [fileA, fileD, fileB, fileC] = [fileA, fileB, fileC]"
    by (simp add: groupBySize_def gomap_eval scenario)
  note c = groupBySize_spec[OF h, of "[fileA, fileD, fileB, fileC]"]
  show ?thesis
    by (intro conjI h v c[THEN conjunct1] c[THEN conjunct2, THEN conjunct1])
qed

text \<open>
  C10. Applying \<^verbatim>\<open>groupBySize\<close> to its own result gives the same records again, as a
  multiset, whatever the two orders of ranging over the map.
\<close>

theorem groupBySize_idem:
  assumes "reorders rng1" and "reorders rng2"
  shows "mset (groupBySize rng2 (groupBySize rng1 files)) = mset (groupBySize rng1 files)"
proof -
  define out where "out = groupBySize rng1 files"
  have two: "2 \<le> count_list (map Size out) (Size f)" if "f \<in># mset out" for f
  proof -
    from that have "Size f \<in> set (map Size out)" by simp
    then have "count_list (map Size out) (Size f) \<noteq> 0"
      by (simp only: count_list_0_iff not_not)
    then show ?thesis
      unfolding out_def groupBySize_count[OF assms(1)] by (simp split: if_splits)
  qed
  have "filter_mset (\<lambda>f. 2 \<le> count_list (map Size out) (Size f)) (mset out) =
          filter_mset (\<lambda>f. True) (mset out)"
    by (rule filter_mset_cong[OF refl]) (simp add: two)
  then have "filter_mset (\<lambda>f. 2 \<le> count_list (map Size out) (Size f)) (mset out) = mset out"
    by simp
  then show ?thesis
    unfolding out_def[symmetric] groupBySize_mset[OF assms(2)] .
qed

theorem groupBySize_idem_witness:
  "reorders (rev :: int list \<Rightarrow> int list) \<and> reorders (id :: int list \<Rightarrow> int list)
   \<and> groupBySize rev [fileA, fileD, fileB, fileC] = [fileA, fileB, fileC]
   \<and> mset (groupBySize id (groupBySize rev [fileA, fileD, fileB, fileC])) =
       mset (groupBySize rev [fileA, fileD, fileB, fileC])"
proof -
  have h1: "reorders (rev :: int list \<Rightarrow> int list)" by (simp add: reorders_def)
  have h2: "reorders (id :: int list \<Rightarrow> int list)" by (simp add: reorders_def)
  have v: "groupBySize rev [fileA, fileD, fileB, fileC] = [fileA, fileB, fileC]"
    by (simp add: groupBySize_def gomap_eval scenario)
  show ?thesis
    by (intro conjI h1 h2 v groupBySize_idem[OF h1 h2])
qed

section \<open>groupByHash\<close>


lemma index_entry: "distinct (keys m) \<Longrightarrow> e \<in> set m \<Longrightarrow> index z m (fst e) = snd e"
  by (cases e) (simp add: index_def keys_def)

lemma hash_fill_inv: "hash_inv fs gc \<Longrightarrow> hash_inv (fs @ files) (hash_fill files gc)"
proof (induction files arbitrary: fs gc)
  case Nil
  then show ?case by simp
next
  case (Cons f files)
  show ?case
  proof (cases "Hash f = []")
    case True
    with Cons.prems have "hash_inv (fs @ [f]) gc" by (simp add: hash_inv_def)
    from Cons.IH[OF this] True show ?thesis by simp
  next
    case False
    let ?gc = "(assign (Hash f) (index [] (fst gc) (Hash f) @ [f]) (fst gc),
                assign (Hash f) (index 0 (snd gc) (Hash f) + 1) (snd gc))"
    have "grouped Hash (filter (\<lambda>f. Hash f \<noteq> []) fs @ [f]) (fst ?gc)"
      using Cons.prems grouped_step[of Hash _ "fst gc" f] by (simp add: hash_inv_def)
    moreover have "keys (snd ?gc) = keys (fst ?gc)"
      using Cons.prems by (simp add: hash_inv_def keys_assign)
    moreover have "\<forall>k. index 0 (snd ?gc) k = int (length (index [] (fst ?gc) k))"
      using Cons.prems by (simp add: hash_inv_def index_assign)
    ultimately have "hash_inv (fs @ [f]) ?gc" using False by (simp add: hash_inv_def)
    from Cons.IH[OF this] False show ?thesis by simp
  qed
qed

lemma hash_sweep_filter:
  "hash_sweep ks c g = filter (\<lambda>e. \<not> (fst e \<in> set ks \<and> index 0 c (fst e) = 1)) g"
proof (induction ks arbitrary: g)
  case Nil
  then show ?case by simp
next
  case (Cons k ks)
  show ?case
    by (auto simp: Cons.IH delete_def intro!: filter_cong)
qed


lemma filter_hash_nonempty:
  "h \<noteq> [] \<Longrightarrow> filter (\<lambda>f. Hash f = h) (filter (\<lambda>f. Hash f \<noteq> []) files) =
                 filter (\<lambda>f. Hash f = h) files"
  by (induction files) auto

lemma groupByHash_char:
  assumes "reorders rng"
  shows "distinct (keys (groupByHash rng files))"
    and "set (keys (groupByHash rng files)) =
           {h. h \<noteq> [] \<and> 2 \<le> count_list (map Hash files) h}"
    and "\<forall>e \<in> set (groupByHash rng files). snd e = filter (\<lambda>f. Hash f = fst e) files"
proof -
  define gc where "gc = hash_fill files ([], [])"
  define g where "g = fst gc"
  define c where "c = snd gc"
  define fs where "fs = filter (\<lambda>f. Hash f \<noteq> []) files"
  have "hash_inv [] ([], [])"
    by (simp add: hash_inv_def grouped_empty keys_def index_def)
  from hash_fill_inv[OF this, of files]
  have G: "grouped Hash fs g" and kc: "keys c = keys g"
    and cnt: "\<And>k. index 0 c k = int (length (index [] g k))"
    by (simp_all add: hash_inv_def gc_def g_def c_def fs_def)
  from G have dk: "distinct (keys g)" and sk: "set (keys g) = Hash ` set fs"
    and ix: "\<And>k. index [] g k = filter (\<lambda>f. Hash f = k) fs"
    by (auto simp: grouped_def)
  have ent: "snd e = filter (\<lambda>f. Hash f = fst e) files \<and> fst e \<noteq> [] \<and>
             index 0 c (fst e) = int (length (snd e)) \<and> snd e \<noteq> []" if "e \<in> set g" for e
  proof -
    from that have "fst e \<in> set (keys g)" by (simp add: keys_def)
    then obtain f where f: "f \<in> set fs" "Hash f = fst e" using sk by auto
    then have ne: "fst e \<noteq> []" by (auto simp: fs_def)
    have se: "snd e = filter (\<lambda>f. Hash f = fst e) fs"
      using index_entry[OF dk that, of "[]"] ix by simp
    from se f have "snd e \<noteq> []" by (auto simp: filter_empty_conv)
    moreover have "filter (\<lambda>f. Hash f = fst e) fs = filter (\<lambda>f. Hash f = fst e) files"
      unfolding fs_def by (rule filter_hash_nonempty[OF ne])
    moreover have "index 0 c (fst e) = int (length (snd e))"
      using cnt[of "fst e"] index_entry[OF dk that, of "[]"] by simp
    ultimately show ?thesis
      using ne se by simp
  qed
  have res: "groupByHash rng files = filter (\<lambda>e. length (snd e) \<noteq> 1) g"
  proof (cases "files = []")
    case True
    then show ?thesis by (simp add: groupByHash_def g_def gc_def)
  next
    case False
    have "set (rng (keys c)) = set (keys g)"
      using assms kc by (simp add: reorders_set)
    then have "hash_sweep (rng (keys c)) c g = filter (\<lambda>e. length (snd e) \<noteq> 1) g"
      unfolding hash_sweep_filter
      by (intro filter_cong refl) (auto simp: keys_def dest: ent)
    with False show ?thesis
      by (simp add: groupByHash_def Let_def gc_def[symmetric] g_def c_def)
  qed
  show "distinct (keys (groupByHash rng files))"
    using dk by (simp add: res keys_def distinct_map_filter)
  show "\<forall>e \<in> set (groupByHash rng files). snd e = filter (\<lambda>f. Hash f = fst e) files"
    using ent by (simp add: res)
  show "set (keys (groupByHash rng files)) =
          {h. h \<noteq> [] \<and> 2 \<le> count_list (map Hash files) h}"
  proof (intro set_eqI iffI)
    fix h assume "h \<in> set (keys (groupByHash rng files))"
    then obtain e where e: "e \<in> set g" "length (snd e) \<noteq> 1" "fst e = h"
      by (auto simp: res keys_def)
    from ent[OF e(1)] have "snd e \<noteq> []" by blast
    then have "length (snd e) \<noteq> 0" by simp
    with e(2) have "2 \<le> length (snd e)" by arith
    with ent[OF e(1)] e(3) show "h \<in> {h. h \<noteq> [] \<and> 2 \<le> count_list (map Hash files) h}"
      by (auto simp: count_list_key)
  next
    fix h assume "h \<in> {h. h \<noteq> [] \<and> 2 \<le> count_list (map Hash files) h}"
    then have h: "h \<noteq> []" "2 \<le> length (filter (\<lambda>f. Hash f = h) files)"
      by (simp_all add: count_list_key)
    then have "filter (\<lambda>f. Hash f = h) files \<noteq> []" by auto
    then obtain f where "f \<in> set files" "Hash f = h" by (auto simp: filter_empty_conv)
    with h(1) have "h \<in> set (keys g)" by (auto simp: sk fs_def)
    then obtain e where e: "e \<in> set g" "fst e = h" by (auto simp: keys_def)
    with ent[OF e(1)] h(2) have "length (snd e) \<noteq> 1" by auto
    with e show "h \<in> set (keys (groupByHash rng files))"
      by (auto simp: res keys_def intro!: image_eqI[where x = e])
  qed
qed

lemma map_snd_groupByHash:
  assumes "reorders rng"
  shows "map snd (groupByHash rng files) =
           map (\<lambda>k. filter (\<lambda>f. Hash f = k) files) (keys (groupByHash rng files))"
  using groupByHash_char(3)[OF assms, of files] by (simp add: keys_def)

lemma groupByHash_mset:
  assumes "reorders rng"
  shows "mset (concat (map snd (groupByHash rng files))) =
           filter_mset (\<lambda>f. Hash f \<noteq> [] \<and> 2 \<le> count_list (map Hash files) (Hash f)) (mset files)"
  unfolding map_snd_groupByHash[OF assms]
  by (simp add: mset_concat_groups[OF groupByHash_char(1)[OF assms]] groupByHash_char(2)[OF assms])

text \<open>
  C1. Whatever the order in which the second loop ranges over the counters, every group
  of the result of \<^verbatim>\<open>groupByHash\<close> has at least two records, the keys are pairwise
  different, the records of all groups together are, as a set and as a multiset, the
  records of the input with a hash that is not absent and occurs at least twice in the
  input, and no record with an absent hash is in a group.
\<close>

theorem groupByHash_spec:
  assumes "reorders rng"
  shows "(\<forall>e \<in> set (groupByHash rng files). 2 \<le> length (snd e))
       \<and> distinct (keys (groupByHash rng files))
       \<and> (\<Union>e \<in> set (groupByHash rng files). set (snd e)) =
           {f \<in> set files. Hash f \<noteq> [] \<and> 2 \<le> count_list (map Hash files) (Hash f)}
       \<and> mset (concat (map snd (groupByHash rng files))) =
           filter_mset (\<lambda>f. Hash f \<noteq> [] \<and> 2 \<le> count_list (map Hash files) (Hash f)) (mset files)
       \<and> (\<forall>e \<in> set (groupByHash rng files). \<forall>f \<in> set (snd e). Hash f \<noteq> [])"
proof -
  let ?res = "groupByHash rng files"
  note ch = groupByHash_char[OF assms, of files]
  have mem: "fst e \<noteq> [] \<and> 2 \<le> count_list (map Hash files) (fst e)" if "e \<in> set ?res" for e
    using that ch(2) by (auto simp: keys_def)
  have a: "\<forall>e \<in> set ?res. 2 \<le> length (snd e)"
    using mem ch(3) by (auto simp: count_list_key)
  have e: "\<forall>e \<in> set ?res. \<forall>f \<in> set (snd e). Hash f \<noteq> []"
    using mem ch(3) by auto
  have "set (concat (map snd ?res)) =
          {f \<in> set files. Hash f \<noteq> [] \<and> 2 \<le> count_list (map Hash files) (Hash f)}"
    using arg_cong[OF groupByHash_mset[OF assms, of files], of set_mset] by simp
  then have c: "(\<Union>e \<in> set ?res. set (snd e)) =
          {f \<in> set files. Hash f \<noteq> [] \<and> 2 \<le> count_list (map Hash files) (Hash f)}"
    by simp
  from a ch(1) c groupByHash_mset[OF assms, of files] e show ?thesis by blast
qed

theorem groupByHash_spec_witness:
  "reorders (rev :: string list \<Rightarrow> string list)
   \<and> groupByHash rev [fileA, fileD, fileB, fileC] = [(''aa'', [fileA, fileB])]
   \<and> distinct (keys (groupByHash rev [fileA, fileD, fileB, fileC]))
   \<and> (\<Union>e \<in> set (groupByHash rev [fileA, fileD, fileB, fileC]). set (snd e)) =
       {f \<in> set [fileA, fileD, fileB, fileC].
          Hash f \<noteq> [] \<and> 2 \<le> count_list (map Hash [fileA, fileD, fileB, fileC]) (Hash f)}"
proof -
  have h: "reorders (rev :: string list \<Rightarrow> string list)" by (simp add: reorders_def)
  have v: "groupByHash rev [fileA, fileD, fileB, fileC] = [(''aa'', [fileA, fileB])]"
    by (simp add: groupByHash_def gomap_eval scenario)
  note c = groupByHash_spec[OF h, of "[fileA, fileD, fileB, fileC]"]
  show ?thesis
    by (intro conjI h v c[THEN conjunct2, THEN conjunct1]
        c[THEN conjunct2, THEN conjunct2, THEN conjunct1])
qed

section \<open>Clean\<close>

lemma clean_loop_attempts:
  "clean_loop rm files n errs fs =
     (n + int (successes (fst (attempts rm files fs))),
      errs @ failures (fst (attempts rm files fs)),
      snd (attempts rm files fs))"
proof (induction files arbitrary: n errs fs)
  case Nil
  then show ?case by (simp add: successes_def failures_def)
next
  case (Cons f files)
  obtain r fs' where r: "rm f fs = (r, fs')" by (cases "rm f fs")
  obtain rs fs'' where rs: "attempts rm files fs' = (rs, fs'')" by (cases "attempts rm files fs'")
  show ?case
  proof (cases r)
    case None
    with r rs Cons.IH[of "n + 1" errs fs'] show ?thesis
      by (simp add: successes_def failures_def)
  next
    case (Some err)
    with r rs Cons.IH[of n "errs @ [CleanFailed f err]" fs'] show ?thesis
      by (simp add: successes_def failures_def)
  qed
qed

lemma attempts_paths: "map fst (fst (attempts rm files fs)) = files"
proof (induction files arbitrary: fs)
  case Nil
  then show ?case by simp
next
  case (Cons f files)
  obtain r fs' where r: "rm f fs = (r, fs')" by (cases "rm f fs")
  obtain rs fs'' where rs: "attempts rm files fs' = (rs, fs'')" by (cases "attempts rm files fs'")
  from Cons.IH[of fs'] r rs show ?case by simp
qed

lemma failures_empty: "failures rs = [] \<longleftrightarrow> list_all (\<lambda>a. snd a = None) rs"
  by (induction rs) (auto simp: failures_def split: option.splits)

lemma Clean_attempts:
  "Clean rm files fs =
     ((int (successes (fst (attempts rm files fs))),
       errors_Join (failures (fst (attempts rm files fs)))),
      snd (attempts rm files fs))"
proof (cases files)
  case Nil
  then show ?thesis by (simp add: Clean_def successes_def failures_def errors_Join_def)
next
  case (Cons f fs')
  then show ?thesis by (simp add: Clean_def clean_loop_attempts del: clean_loop.simps)
qed

text \<open>
  C3. \<^verbatim>\<open>Clean\<close> tries every path of the list, in order and whatever the outcome of the
  paths before: it returns the number of attempts that succeeded, and the join of one
  error for each attempt that failed, made of the path and the error of \<^verbatim>\<open>os.Remove\<close>.
  The joined error is \<^verbatim>\<open>nil\<close> exactly when every attempt succeeded. For the empty list
  the result is 0 and no error, and the file system is as before.
\<close>

theorem Clean_spec:
  "Clean rm files fs =
     ((int (successes (fst (attempts rm files fs))),
       errors_Join (failures (fst (attempts rm files fs)))),
      snd (attempts rm files fs))
   \<and> map fst (fst (attempts rm files fs)) = files
   \<and> (snd (fst (Clean rm files fs)) = None) = list_all (\<lambda>a. snd a = None) (fst (attempts rm files fs))
   \<and> Clean rm [] fs = ((0, None), fs)"
proof -
  have c: "(snd (fst (Clean rm files fs)) = None) =
           list_all (\<lambda>a. snd a = None) (fst (attempts rm files fs))"
    unfolding Clean_attempts by (simp add: errors_Join_def failures_empty)
  have d: "Clean rm [] fs = ((0, None), fs)" by (simp add: Clean_def)
  show ?thesis by (intro conjI Clean_attempts attempts_paths c d)
qed

theorem Clean_spec_witness:
  "Clean remove_existing [''a'', ''x'', ''b''] [''a'', ''b'', ''c''] =
     ((2, Some (Joined [CleanFailed ''x'' (OsError ''no such file'')])), [''c''])
   \<and> map fst (fst (attempts remove_existing [''a'', ''x'', ''b''] [''a'', ''b'', ''c''])) =
       [''a'', ''x'', ''b'']
   \<and> Clean remove_existing [] [''a'', ''b'', ''c''] = ((0, None), [''a'', ''b'', ''c''])"
proof -
  note t = Clean_spec[of remove_existing "[''a'', ''x'', ''b'']" "[''a'', ''b'', ''c'']"]
  have v: "attempts remove_existing [''a'', ''x'', ''b''] [''a'', ''b'', ''c''] =
             ([(''a'', None), (''x'', Some (OsError ''no such file'')), (''b'', None)], [''c''])"
    by (simp add: remove_existing_def)
  have a: "Clean remove_existing [''a'', ''x'', ''b''] [''a'', ''b'', ''c''] =
     ((2, Some (Joined [CleanFailed ''x'' (OsError ''no such file'')])), [''c''])"
    unfolding t[THEN conjunct1] v by (simp add: successes_def failures_def errors_Join_def)
  show ?thesis
    by (intro conjI a t[THEN conjunct2, THEN conjunct1]
        t[THEN conjunct2, THEN conjunct2, THEN conjunct2])
qed

text \<open>
  On a file system where removing succeeds exactly for the paths that exist: a list of
  different existing paths is removed completely, without an error; and an example with
  one path that does not exist.
\<close>

lemma attempts_existing:
  "distinct files \<Longrightarrow> set files \<subseteq> set fs \<Longrightarrow>
   attempts remove_existing files fs =
     (map (\<lambda>p. (p, None)) files, filter (\<lambda>p. p \<notin> set files) fs)"
proof (induction files arbitrary: fs)
  case Nil
  then show ?case by simp
next
  case (Cons f files)
  have "set files \<subseteq> set (removeAll f fs)" using Cons.prems by auto
  with Cons.IH[of "removeAll f fs"] Cons.prems
  have "attempts remove_existing files (removeAll f fs) =
          (map (\<lambda>p. (p, None)) files, filter (\<lambda>p. p \<notin> set files) (removeAll f fs))"
    by simp
  moreover have "filter (\<lambda>p. p \<notin> set files) (removeAll f fs) =
                 filter (\<lambda>p. p \<notin> set (f # files)) fs"
    by (induction fs) auto
  moreover have "remove_existing f fs = (None, removeAll f fs)"
    using Cons.prems by (simp add: remove_existing_def)
  ultimately show ?case by simp
qed

lemma Clean_existing:
  assumes "distinct files" and "set files \<subseteq> set fs"
  shows "Clean remove_existing files fs =
           ((int (length files), None), filter (\<lambda>p. p \<notin> set files) fs)"
proof -
  have "successes (map (\<lambda>p. (p, None)) files) = length files"
    by (simp add: successes_def)
  moreover have "failures (map (\<lambda>p. (p, None :: error option)) files) = []"
    by (induction files) (simp_all add: failures_def)
  ultimately show ?thesis
    using attempts_existing[OF assms] by (simp add: Clean_attempts errors_Join_def)
qed

lemma Clean_example:
  "Clean remove_existing [''a'', ''x'', ''b''] [''a'', ''b'', ''c''] =
     ((2, Some (Joined [CleanFailed ''x'' (OsError ''no such file'')])), [''c''])"
  by (simp add: Clean_def remove_existing_def errors_Join_def)

section \<open>newHash\<close>

lemma of_char_lower:
  "is_upper c \<Longrightarrow> (of_char (lower_char c) :: nat) = of_char c + 32"
  by (simp add: is_upper_def lower_char_def)

lemma lower_not_upper: "\<not> is_upper (lower_char c)"
proof (cases "is_upper c")
  case True
  then show ?thesis using of_char_lower[OF True] by (simp add: is_upper_def)
next
  case False
  then show ?thesis by (simp add: lower_char_def)
qed

lemma lower_same:
  assumes "same_letter c d"
  shows "lower_char c = lower_char d"
proof -
  have up: "lower_char x = lower_char y"
    if "is_upper x" "(of_char y :: nat) = of_char x + 32" for x y
  proof -
    from that have "\<not> is_upper y" by (simp add: is_upper_def)
    then have "lower_char y = y" by (simp add: lower_char_def)
    moreover have "y = char_of (of_char x + 32 :: nat)"
      using that(2) by (metis char_of_char)
    ultimately show ?thesis using that(1) by (simp add: lower_char_def)
  qed
  from assms show ?thesis
    unfolding same_letter_def using up[of c d] up[of d c] by auto
qed

lemma same_lower: "same_letter c (lower_char c)"
  by (cases "is_upper c") (simp_all add: same_letter_def of_char_lower, simp add: lower_char_def)

lemma ToLower_same: "same_but_case a b \<Longrightarrow> ToLower a = ToLower b"
  unfolding same_but_case_def ToLower_def
  by (induction rule: list_all2_induct) (simp_all add: lower_same)

lemma same_ToLower: "same_but_case a (ToLower a)"
  unfolding same_but_case_def ToLower_def
  by (induction a) (simp_all add: same_lower)

lemmas lower_eval = ToLower_def lower_char_def is_upper_def char_of_eq_iff

text \<open>
  C9. \<^verbatim>\<open>newHash\<close> gives the same digest for two names that are the same but for case,
  the named digest for each of the four names, and MD5 for every name that is none of
  sha1, sha256 and sha512 in any case. It has no error result.
\<close>

theorem newHash_spec:
  "(same_but_case a b \<longrightarrow> newHash a = newHash b)
   \<and> newHash ''md5'' = MD5 \<and> newHash ''sha1'' = SHA1
   \<and> newHash ''sha256'' = SHA256 \<and> newHash ''sha512'' = SHA512
   \<and> (\<not> same_but_case name ''sha1'' \<and> \<not> same_but_case name ''sha256'' \<and>
       \<not> same_but_case name ''sha512'' \<longrightarrow> newHash name = MD5)"
proof -
  have a: "same_but_case a b \<longrightarrow> newHash a = newHash b"
    by (simp add: newHash_def ToLower_same)
  have b: "newHash ''md5'' = MD5" "newHash ''sha1'' = SHA1"
    "newHash ''sha256'' = SHA256" "newHash ''sha512'' = SHA512"
    by (simp_all add: newHash_def lower_eval)
  have c: "\<not> same_but_case name ''sha1'' \<and> \<not> same_but_case name ''sha256'' \<and>
       \<not> same_but_case name ''sha512'' \<longrightarrow> newHash name = MD5"
    using same_ToLower[of name] by (auto simp: newHash_def Let_def)
  show ?thesis by (intro conjI a b c)
qed

theorem newHash_spec_witness:
  "same_but_case ''ShA256'' ''sha256'' \<and> newHash ''ShA256'' = newHash ''sha256''
   \<and> newHash ''sha256'' = SHA256
   \<and> \<not> same_but_case ''crc32'' ''sha1'' \<and> \<not> same_but_case ''crc32'' ''sha256''
   \<and> \<not> same_but_case ''crc32'' ''sha512'' \<and> newHash ''crc32'' = MD5"
proof -
  have h: "same_but_case ''ShA256'' ''sha256''"
    by (simp add: same_but_case_def same_letter_def is_upper_def)
  have n: "\<not> same_but_case ''crc32'' ''sha1''" "\<not> same_but_case ''crc32'' ''sha256''"
    "\<not> same_but_case ''crc32'' ''sha512''"
    by (simp_all add: same_but_case_def same_letter_def is_upper_def)
  note t1 = newHash_spec[of "''ShA256''" "''sha256''" "''crc32''"]
  have c1: "newHash ''ShA256'' = newHash ''sha256''"
    by (rule t1[THEN conjunct1, THEN mp, OF h])
  have c2: "newHash ''sha256'' = SHA256"
    by (rule t1[THEN conjunct2, THEN conjunct2, THEN conjunct2, THEN conjunct1])
  have c3: "newHash ''crc32'' = MD5"
    by (rule t1[THEN conjunct2, THEN conjunct2, THEN conjunct2, THEN conjunct2, THEN conjunct2,
          THEN mp]) (intro conjI n)
  show ?thesis by (intro conjI h n c1 c2 c3)
qed

section \<open>walkDirs\<close>

lemmas walk_eval = scenario_sys_def scenario_walk_def reg_file_def directory_def walkFn_def
  walkDirs_def ToLower_def lower_char_def is_upper_def

lemma scenario_walked:
  "walkDirs scenario_sys [''/r''] =
     Inr [\<lparr>Path = ''/r/A'', Size = 10, Hash = []\<rparr>, \<lparr>Path = ''/r/B'', Size = 10, Hash = []\<rparr>,
          \<lparr>Path = ''/r/C'', Size = 10, Hash = []\<rparr>, \<lparr>Path = ''/r/D'', Size = 20, Hash = []\<rparr>,
          \<lparr>Path = ''/r/E'', Size = 10, Hash = []\<rparr>]"
  by (simp add: walk_eval)

lemma scenario_List:
  "List scenario_sys rev id rev [''/r''] ''md5'' 4 =
     Some ([(''aa'', [fileA, fileB])],
           Some (Joined [HashFailed ''/r/E'' (Joined [OsError ''permission denied''])]))"
  unfolding List_def scenario_walked
  by (simp add: groupBySize_def groupByHash_def calcHashs_def hash_task_def
      calcHash_def task_errors_def errors_Join_def newHash_def gomap_eval
      fileA_def fileB_def scenario_sys_def ToLower_def lower_char_def is_upper_def)

lemma walkFn_extends:
  "walkFn s path r files = (ret, files') \<Longrightarrow>
   \<exists>extra. files' = files @ extra \<and> list_all fresh extra"
  by (auto simp: walkFn_def fresh_def split: sum.splits if_splits)

lemma run_walk_extends:
  "run_walk s w files = (e, files') \<Longrightarrow>
   \<exists>extra. files' = files @ extra \<and> list_all fresh extra"
proof (induction w arbitrary: files)
  case (Return x)
  then show ?case by simp
next
  case (Visit path r k)
  obtain ret files1 where w: "walkFn s path r files = (ret, files1)"
    by (cases "walkFn s path r files")
  from walkFn_extends[OF w] obtain ex1 where ex1: "files1 = files @ ex1" "list_all fresh ex1"
    by blast
  from Visit.prems w have "run_walk s (k ret) files1 = (e, files')" by simp
  from Visit.IH[OF _ this] obtain ex2 where "files' = files1 @ ex2" "list_all fresh ex2"
    by blast
  with ex1 have "files' = files @ (ex1 @ ex2) \<and> list_all fresh (ex1 @ ex2)" by simp
  then show ?case by blast
qed

lemma walk_roots_extends:
  "walk_roots s dirs files = Inr files' \<Longrightarrow>
   \<exists>extra. files' = files @ extra \<and> list_all fresh extra"
proof (induction dirs arbitrary: files)
  case Nil
  then show ?case by simp
next
  case (Cons dir dirs)
  show ?case
  proof (cases "filepath_Abs s dir")
    case (Inl err)
    with Cons show ?thesis by simp
  next
    case (Inr absDir)
    obtain e files1 where w: "run_walk s (filepath_Walk s absDir) files = (e, files1)"
      by (cases "run_walk s (filepath_Walk s absDir) files")
    with Cons.prems Inr have e: "e = None" and r: "walk_roots s dirs files1 = Inr files'"
      by (cases e; simp)+
    from run_walk_extends[OF w] obtain ex1 where ex1: "files1 = files @ ex1" "list_all fresh ex1"
      by blast
    from Cons.IH[OF r] obtain ex2 where "files' = files1 @ ex2" "list_all fresh ex2"
      by blast
    with ex1 have "files' = files @ (ex1 @ ex2) \<and> list_all fresh (ex1 @ ex2)" by simp
    then show ?thesis by blast
  qed
qed

lemma walkDirs_fresh: "walkDirs s dirs = Inr fs \<Longrightarrow> list_all fresh fs"
  using walk_roots_extends[of s dirs "[]" fs] by (auto simp: walkDirs_def split: if_splits)

lemma walk_roots_error:
  "walk_roots s dirs files = Inl e \<Longrightarrow>
   \<exists>dir \<in> set dirs. \<exists>absDir files0 err.
     filepath_Abs s dir = Inr absDir \<and>
     fst (run_walk s (filepath_Walk s absDir) files0) = Some err \<and> e = Joined [err]"
proof (induction dirs arbitrary: files)
  case Nil
  then show ?case by simp
next
  case (Cons dir dirs)
  show ?case
  proof (cases "filepath_Abs s dir")
    case (Inl err)
    with Cons show ?thesis by simp
  next
    case (Inr absDir)
    obtain r files1 where w: "run_walk s (filepath_Walk s absDir) files = (r, files1)"
      by (cases "run_walk s (filepath_Walk s absDir) files")
    show ?thesis
    proof (cases r)
      case None
      with Cons.prems Inr w have "walk_roots s dirs files1 = Inl e" by simp
      from Cons.IH[OF this] show ?thesis by auto
    next
      case (Some err)
      with Cons.prems Inr w have "e = Joined [err]" by simp
      with Inr w Some show ?thesis by (auto intro!: exI[of _ absDir] exI[of _ files])
    qed
  qed
qed

lemma walkDirs_no_roots: "walkDirs s [] = Inl (Joined [ErrNoDirs])"
  by (simp add: walkDirs_def)

lemma walkFn_entry_error: "walkFn s path (Inl err) files = (SkipDir, files)"
  by (simp add: walkFn_def)

lemma run_walk_entry_error:
  "run_walk s (Visit path (Inl err) k) files = run_walk s (k SkipDir) files"
  by (simp add: walkFn_entry_error)

lemma walkDirs_error:
  assumes "walkDirs s dirs = Inl e"
  shows "dirs = [] \<and> e = Joined [ErrNoDirs] \<or>
         (\<exists>dir \<in> set dirs. \<exists>absDir files0 err.
            filepath_Abs s dir = Inr absDir \<and>
            fst (run_walk s (filepath_Walk s absDir) files0) = Some err \<and> e = Joined [err])"
  using assms walk_roots_error[of s dirs "[]" e] by (auto simp: walkDirs_def split: if_splits)

text \<open>
  The test of the error of \<^verbatim>\<open>filepath.Walk\<close> in \<^verbatim>\<open>walkDirs\<close> never holds: when the
  walks return \<^verbatim>\<open>nil\<close> whatever the callback answers, \<^verbatim>\<open>walkDirs\<close> fails for the
  empty list of roots only.
\<close>

lemma run_walk_returns_nil: "returns_nil w \<Longrightarrow> fst (run_walk s w files) = None"
proof (induction w arbitrary: files)
  case (Return e)
  then show ?case by simp
next
  case (Visit path r k)
  obtain ret files' where w: "walkFn s path r files = (ret, files')"
    by (cases "walkFn s path r files")
  from Visit.prems have "returns_nil (k ret)" by (cases ret) simp_all
  have "fst (run_walk s (k ret) files') = None"
    by (rule Visit.IH[OF _ \<open>returns_nil (k ret)\<close>]) simp
  with w show ?case by simp
qed

lemma walkDirs_fails_for_no_roots_only:
  assumes "\<forall>root. returns_nil (filepath_Walk s root)" and "walkDirs s dirs = Inl e"
  shows "dirs = [] \<and> e = Joined [ErrNoDirs]"
  using walkDirs_error[OF assms(2)] assms(1) by (auto simp: run_walk_returns_nil)

lemma scenario_returns_nil: "returns_nil (filepath_Walk scenario_sys root)"
  by (simp add: scenario_sys_def scenario_walk_def Walk_missing_def)


section \<open>List\<close>

lemma set_assign: "set (assign k v m) \<subseteq> insert (k, v) (set m)"
  by (induction m) auto

lemma index_in_entries: "set (index [] m k) \<subseteq> (\<Union>e \<in> set m. set (snd e))"
proof (cases "map_of m k")
  case None
  then show ?thesis by (simp add: index_def)
next
  case (Some v)
  then have "(k, v) \<in> set m" by (rule map_of_SomeD)
  with Some show ?thesis by (force simp: index_def)
qed

lemma size_fill_subset:
  "(\<Union>e \<in> set (size_fill files g). set (snd e)) \<subseteq> set files \<union> (\<Union>e \<in> set g. set (snd e))"
proof (induction files arbitrary: g)
  case Nil
  then show ?case by simp
next
  case (Cons f files)
  let ?g = "assign (Size f) (index [] g (Size f) @ [f]) g"
  have h: "(\<Union>e \<in> set ?g. set (snd e)) \<subseteq> insert f (\<Union>e \<in> set g. set (snd e))"
    using set_assign[of "Size f" "index [] g (Size f) @ [f]" g] index_in_entries[of g "Size f"]
    by fastforce
  have eq: "size_fill (f # files) g = size_fill files ?g" by simp
  have st: "set (f # files) = insert f (set files)" by simp
  show ?case unfolding eq st using Cons[of ?g] h by blast
qed

lemma size_sweep_subset:
  "set (snd (size_sweep ks g acc)) \<subseteq> set acc \<union> (\<Union>e \<in> set g. set (snd e))"
proof (induction ks arbitrary: g acc)
  case Nil
  then show ?case by simp
next
  case (Cons k ks)
  define U where "U = (\<Union>e \<in> set g. set (snd e))"
  define U' where "U' = (\<Union>e \<in> set (delete k g). set (snd e))"
  define v where "v = index [] g k"
  have d: "U' \<subseteq> U" by (auto simp: U_def U'_def delete_def)
  have vU: "set v \<subseteq> U" unfolding v_def U_def by (rule index_in_entries)
  show ?case
  proof (cases "length v = 1")
    case True
    then have "snd (size_sweep (k # ks) g acc) = snd (size_sweep ks (delete k g) acc)"
      by (simp add: Let_def v_def)
    moreover have "set (snd (size_sweep ks (delete k g) acc)) \<subseteq> set acc \<union> U'"
      unfolding U'_def by (rule Cons)
    ultimately show ?thesis unfolding U_def[symmetric] using d by auto
  next
    case False
    then have "snd (size_sweep (k # ks) g acc) = snd (size_sweep ks g (acc @ v))"
      by (simp add: Let_def v_def)
    moreover have "set (snd (size_sweep ks g (acc @ v))) \<subseteq> set (acc @ v) \<union> U"
      unfolding U_def by (rule Cons)
    moreover have "set (acc @ v) = set acc \<union> set v" by simp
    ultimately show ?thesis unfolding U_def[symmetric] using vU by auto
  qed
qed

lemma groupBySize_subset: "set (groupBySize rng files) \<subseteq> set files"
proof (cases "files = []")
  case True
  then show ?thesis by (simp add: groupBySize_def)
next
  case False
  define g where "g = size_fill files []"
  have "set (snd (size_sweep (rng (keys g)) g [])) \<subseteq> set [] \<union> (\<Union>e \<in> set g. set (snd e))"
    by (rule size_sweep_subset)
  moreover have "(\<Union>e \<in> set g. set (snd e)) \<subseteq> set files"
    unfolding g_def using size_fill_subset[of files "[]"] by simp
  ultimately have "set (snd (size_sweep (rng (keys g)) g [])) \<subseteq> set files" by auto
  with False show ?thesis by (simp add: groupBySize_def Let_def g_def)
qed

lemma hash_task_keeps:
  "Size (fst (hash_task s hashName f)) = Size f \<and> Path (fst (hash_task s hashName f)) = Path f"
  by (simp add: hash_task_def Let_def split: sum.splits)

lemma calcHashs_sizes:
  "calcHashs s sched files hashName n = Some (files', err) \<Longrightarrow>
   \<forall>f \<in> set files. 0 < Size f \<Longrightarrow> \<forall>r \<in> set files'. 0 < Size r"
  by (auto simp: calcHashs_def Let_def hash_task_keeps split: if_splits)

lemma groupByHash_invariants:
  assumes "reorders rng" and "\<forall>f \<in> set files. 0 < Size f"
  shows "(\<forall>e \<in> set (groupByHash rng files).
            2 \<le> length (snd e) \<and> (\<forall>r \<in> set (snd e). Hash r \<noteq> [] \<and> 0 < Size r))
       \<and> distinct (keys (groupByHash rng files))
       \<and> (\<forall>e1 \<in> set (groupByHash rng files). \<forall>e2 \<in> set (groupByHash rng files).
            \<forall>r. r \<in> set (snd e1) \<and> r \<in> set (snd e2) \<longrightarrow> e1 = e2)"
proof -
  let ?res = "groupByHash rng files"
  note ch = groupByHash_char[OF assms(1), of files]
  have mem: "fst e \<noteq> [] \<and> 2 \<le> count_list (map Hash files) (fst e)" if "e \<in> set ?res" for e
    using that ch(2) by (auto simp: keys_def)
  have sn: "snd e = filter (\<lambda>f. Hash f = fst e) files" if "e \<in> set ?res" for e
    using that ch(3) by blast
  have a: "\<forall>e \<in> set ?res. 2 \<le> length (snd e) \<and> (\<forall>r \<in> set (snd e). Hash r \<noteq> [] \<and> 0 < Size r)"
  proof (intro ballI conjI)
    fix e assume e: "e \<in> set ?res"
    from mem[OF e] show "2 \<le> length (snd e)"
      unfolding sn[OF e] count_list_key by simp
    fix r assume "r \<in> set (snd e)"
    then have "r \<in> set files" "Hash r = fst e" unfolding sn[OF e] by simp_all
    with mem[OF e] assms(2) show "Hash r \<noteq> []" "0 < Size r" by simp_all
  qed
  have c: "\<forall>e1 \<in> set ?res. \<forall>e2 \<in> set ?res. \<forall>r. r \<in> set (snd e1) \<and> r \<in> set (snd e2) \<longrightarrow> e1 = e2"
  proof (intro ballI allI impI)
    fix e1 e2 r
    assume e: "e1 \<in> set ?res" "e2 \<in> set ?res" and r: "r \<in> set (snd e1) \<and> r \<in> set (snd e2)"
    from r sn[OF e(1)] sn[OF e(2)] have "fst e1 = fst e2" by auto
    with sn[OF e(1)] sn[OF e(2)] show "e1 = e2" by (simp add: prod_eq_iff)
  qed
  show ?thesis by (intro conjI a ch(1) c)
qed

text \<open>
  C4. In every result that \<^verbatim>\<open>List\<close> returns, every group has at least two records,
  every record has a hash and a size above zero, the keys are pairwise different, and
  no record is in two groups.
\<close>

theorem List_invariants:
  assumes "reorders rngH" and "List s rngS sched rngH dirs hashName n = Some (lst, err)"
  shows "(\<forall>e \<in> set lst. 2 \<le> length (snd e) \<and> (\<forall>r \<in> set (snd e). Hash r \<noteq> [] \<and> 0 < Size r))
       \<and> distinct (keys lst)
       \<and> (\<forall>e1 \<in> set lst. \<forall>e2 \<in> set lst. \<forall>r. r \<in> set (snd e1) \<and> r \<in> set (snd e2) \<longrightarrow> e1 = e2)"
proof (cases "walkDirs s dirs")
  case (Inl e)
  with assms(2) have "lst = []" by (simp add: List_def)
  then show ?thesis by (simp add: keys_def)
next
  case (Inr fs)
  let ?fs1 = "groupBySize rngS fs"
  from assms(2) Inr obtain fs2 where
    c: "calcHashs s sched ?fs1 hashName n = Some (fs2, err)" and l: "lst = groupByHash rngH fs2"
    by (auto simp: List_def Let_def split: option.splits)
  have "\<forall>f \<in> set fs. 0 < Size f"
    using walkDirs_fresh[OF Inr] by (simp add: list_all_iff fresh_def)
  then have "\<forall>f \<in> set ?fs1. 0 < Size f"
    using groupBySize_subset[of rngS fs] by blast
  from calcHashs_sizes[OF c this] have "\<forall>r \<in> set fs2. 0 < Size r" .
  from groupByHash_invariants[OF assms(1) this] show ?thesis unfolding l .
qed

theorem List_invariants_witness:
  "reorders (rev :: string list \<Rightarrow> string list)
   \<and> List scenario_sys rev id rev [''/r''] ''md5'' 4 =
       Some ([(''aa'', [fileA, fileB])],
             Some (Joined [HashFailed ''/r/E'' (Joined [OsError ''permission denied''])]))
   \<and> distinct (keys [(''aa'', [fileA, fileB])])"
proof -
  have h: "reorders (rev :: string list \<Rightarrow> string list)" by (simp add: reorders_def)
  note t = List_invariants[OF h scenario_List]
  show ?thesis by (intro conjI h scenario_List t[THEN conjunct2, THEN conjunct1])
qed

text \<open>Without a slot no goroutine is admitted, and \<^verbatim>\<open>calcHashs\<close> does not return.\<close>

lemma calcHashs_blocks:
  "files \<noteq> [] \<Longrightarrow> n < 1 \<Longrightarrow> calcHashs s sched files hashName n = None"
  by (simp add: calcHashs_def)

lemma task_errors_empty:
  "task_errors (map (hash_task s hashName) files) = [] \<longleftrightarrow>
     \<not> list_ex (hash_fails s hashName) files"
  by (induction files)
     (auto simp: task_errors_def hash_task_def hash_fails_def Let_def split: sum.splits)

lemma set_task_errors:
  "set (task_errors (map (hash_task s hashName) files)) =
     {HashFailed (Path f) err | f err.
        f \<in> set files \<and> calcHash s (Path f) (newHash hashName) = Inl err}"
  by (induction files)
     (auto simp: task_errors_def hash_task_def Let_def split: sum.splits)

lemma hash_task_failed:
  "hash_fails s hashName f \<Longrightarrow> fst (hash_task s hashName f) = f"
  by (auto simp: hash_fails_def hash_task_def Let_def split: sum.splits)

lemma hash_task_fresh:
  "fresh f \<Longrightarrow> Hash (fst (hash_task s hashName f)) \<noteq> [] \<Longrightarrow> \<not> hash_fails s hashName f"
  by (auto simp: hash_fails_def hash_task_def fresh_def Let_def split: sum.splits)

text \<open>
  C7. Let the bound \<open>n\<close> be at least 1, as the configuration check demands, and let
  hashing fail for some record that \<^verbatim>\<open>groupBySize\<close> has kept. Then \<^verbatim>\<open>calcHashs\<close>
  returns, with the join of the collected errors, which are not empty and are one error
  for each record that failed; a record that failed is unchanged and its hash absent;
  \<^verbatim>\<open>List\<close> returns the same error together with the groups of the records as hashed,
  and every record in a group is one whose hashing succeeded.
\<close>

theorem hashing_failures:
  assumes "1 \<le> n" and "reorders sched" and "reorders rngH"
    and "walkDirs s dirs = Inr fs"
    and "list_ex (hash_fails s hashName) (groupBySize rngS fs)"
  shows "calcHashs s sched (groupBySize rngS fs) hashName n =
           Some (hashed s hashName (groupBySize rngS fs),
                 Some (Joined (collected s sched hashName (groupBySize rngS fs))))
       \<and> collected s sched hashName (groupBySize rngS fs) \<noteq> []
       \<and> set (collected s sched hashName (groupBySize rngS fs)) =
           {HashFailed (Path f) err | f err.
              f \<in> set (groupBySize rngS fs) \<and> calcHash s (Path f) (newHash hashName) = Inl err}
       \<and> (\<forall>f \<in> set (groupBySize rngS fs).
             hash_fails s hashName f \<longrightarrow> fst (hash_task s hashName f) = f \<and> Hash f = [])
       \<and> List s rngS sched rngH dirs hashName n =
           Some (groupByHash rngH (hashed s hashName (groupBySize rngS fs)),
                 Some (Joined (collected s sched hashName (groupBySize rngS fs))))
       \<and> (\<forall>e \<in> set (groupByHash rngH (hashed s hashName (groupBySize rngS fs))).
             \<forall>r \<in> set (snd e). \<exists>f \<in> set (groupBySize rngS fs).
               \<not> hash_fails s hashName f \<and> r = fst (hash_task s hashName f))"
proof -
  define fs1 where "fs1 = groupBySize rngS fs"
  define errs where "errs = collected s sched hashName fs1"
  have ne: "fs1 \<noteq> []" using assms(5) by (auto simp: fs1_def)
  have fr: "fresh f" if "f \<in> set fs1" for f
    using that walkDirs_fresh[OF assms(4)] groupBySize_subset[of rngS fs]
    by (auto simp: fs1_def list_all_iff)
  have "task_errors (map (hash_task s hashName) fs1) \<noteq> []"
    using assms(5) by (simp add: task_errors_empty fs1_def)
  then have "mset (task_errors (map (hash_task s hashName) fs1)) \<noteq> {#}" by simp
  then have "mset errs \<noteq> {#}"
    using assms(2) by (simp add: errs_def collected_def reorders_def)
  then have b: "errs \<noteq> []" by simp
  have a: "calcHashs s sched fs1 hashName n = Some (hashed s hashName fs1, Some (Joined errs))"
    using ne assms(1) b
    by (simp add: calcHashs_def Let_def errors_Join_def hashed_def errs_def collected_def comp_def)
  have c: "set errs = {HashFailed (Path f) err | f err.
              f \<in> set fs1 \<and> calcHash s (Path f) (newHash hashName) = Inl err}"
    unfolding errs_def collected_def reorders_set[OF assms(2)] by (rule set_task_errors)
  have d: "\<forall>f \<in> set fs1. hash_fails s hashName f \<longrightarrow> fst (hash_task s hashName f) = f \<and> Hash f = []"
    using fr by (auto simp: hash_task_failed fresh_def)
  have e: "List s rngS sched rngH dirs hashName n =
           Some (groupByHash rngH (hashed s hashName fs1), Some (Joined errs))"
    using a assms(4) by (simp add: List_def Let_def fs1_def)
  have f: "\<forall>e \<in> set (groupByHash rngH (hashed s hashName fs1)).
             \<forall>r \<in> set (snd e). \<exists>f \<in> set fs1.
               \<not> hash_fails s hashName f \<and> r = fst (hash_task s hashName f)"
  proof (intro ballI)
    fix e r
    assume e: "e \<in> set (groupByHash rngH (hashed s hashName fs1))" and r: "r \<in> set (snd e)"
    note ch = groupByHash_char[OF assms(3), of "hashed s hashName fs1"]
    from e ch(2) have k: "fst e \<noteq> []" by (auto simp: keys_def)
    from e r ch(3) have "r \<in> set (hashed s hashName fs1)" "Hash r = fst e" by auto
    then obtain f where f: "f \<in> set fs1" "r = fst (hash_task s hashName f)"
      by (auto simp: hashed_def)
    with k \<open>Hash r = fst e\<close> have "Hash (fst (hash_task s hashName f)) \<noteq> []" by simp
    from hash_task_fresh[OF fr[OF f(1)] this] f
    show "\<exists>f \<in> set fs1. \<not> hash_fails s hashName f \<and> r = fst (hash_task s hashName f)"
      by blast
  qed
  show ?thesis
    unfolding fs1_def[symmetric] errs_def[symmetric] by (intro conjI a b c d e f)
qed

theorem hashing_failures_witness:
  "(1::int) \<le> 4 \<and> reorders (id :: error list \<Rightarrow> error list)
   \<and> reorders (rev :: string list \<Rightarrow> string list)
   \<and> walkDirs scenario_sys [''/r''] = Inr scenario_files
   \<and> list_ex (hash_fails scenario_sys ''md5'') (groupBySize rev scenario_files)
   \<and> List scenario_sys rev id rev [''/r''] ''md5'' 4 =
       Some (groupByHash rev (hashed scenario_sys ''md5'' (groupBySize rev scenario_files)),
             Some (Joined (collected scenario_sys id ''md5'' (groupBySize rev scenario_files))))
   \<and> collected scenario_sys id ''md5'' (groupBySize rev scenario_files) \<noteq> []
   \<and> List scenario_sys rev id rev [''/r''] ''md5'' 4 =
       Some ([(''aa'', [fileA, fileB])],
             Some (Joined [HashFailed ''/r/E'' (Joined [OsError ''permission denied''])]))"
proof -
  have h1: "(1::int) \<le> 4" by simp
  have h2: "reorders (id :: error list \<Rightarrow> error list)" by (simp add: reorders_def)
  have h3: "reorders (rev :: string list \<Rightarrow> string list)" by (simp add: reorders_def)
  have h4: "walkDirs scenario_sys [''/r''] = Inr scenario_files"
    by (simp add: scenario_walked scenario_files_def)
  have g: "groupBySize rev scenario_files =
             [\<lparr>Path = ''/r/A'', Size = 10, Hash = []\<rparr>, \<lparr>Path = ''/r/B'', Size = 10, Hash = []\<rparr>,
              \<lparr>Path = ''/r/C'', Size = 10, Hash = []\<rparr>, \<lparr>Path = ''/r/E'', Size = 10, Hash = []\<rparr>]"
    by (simp add: groupBySize_def gomap_eval scenario_files_def)
  have h5: "list_ex (hash_fails scenario_sys ''md5'') (groupBySize rev scenario_files)"
    unfolding g by (simp add: hash_fails_def calcHash_def scenario_sys_def)
  note t = hashing_failures[where rngS = rev, OF h1 h2 h3 h4 h5]
  show ?thesis
    by (intro conjI h1 h2 h3 h4 h5 scenario_List
        t[THEN conjunct2, THEN conjunct1]
        t[THEN conjunct2, THEN conjunct2, THEN conjunct2, THEN conjunct2, THEN conjunct1])
qed

section \<open>The list file\<close>

lemma Split_nonempty: "Split line sep \<noteq> []"
  by (induction line) (auto split: list.splits)

lemma read_lines_eq:
  "read_lines f lines delList =
     Inr (delList @ map first_field (filter (\<lambda>line. line \<noteq> splitLine) lines))"
proof (induction lines arbitrary: delList)
  case Nil
  then show ?case by simp
next
  case (Cons line lines)
  have "\<not> length (Split line TAB) < 1" using Split_nonempty[of line TAB] by (cases "Split line TAB") auto
  moreover have "Split line TAB ! 0 = first_field line"
    using Split_nonempty[of line TAB] by (simp add: first_field_def hd_conv_nth)
  ultimately show ?case using Cons.IH by (simp add: Let_def)
qed

lemmas text_eval = splitLine_def TAB_def NL_def CR_def scan_lines_def dropCR_def
  MaxScanTokenSize_def first_field_def

text \<open>
  C6. A line without a tab is taken as a path, and so is an empty line:
  \<^verbatim>\<open>strings.Split\<close> gives one empty field for it, the test \<^verbatim>\<open>len(s) < 1\<close> does not
  hold, and \<^verbatim>\<open>readList\<close> returns the empty path among the others instead of the
  format error.
\<close>

theorem readList_empty_line:
  "readList (open_one ''del.txt'' text_with_empty_line) [''del.txt''] = Inr [''/r/A'', [], ''/r/B'']"
  by (simp add: readList_def open_one_def text_with_empty_line_def text_eval)

lemma fmt10: "fmt_d 10 = ''10''"
  by (simp add: fmt_d_def decimal.simps digit_def char_of_eq_iff)

lemma tab_save: "saveList create_ok id ''list.txt'' tab_list = Inr tab_text"
  by (simp add: saveList_def create_ok_def tab_list_def tab_text_def group_text_def record_line_def
      fmt10 index_def keys_def fileB_def)

lemma tab_read: "readList (open_one ''list.txt'' tab_text) [''list.txt''] = Inr [''/r/a'', ''/r/B'']"
  by (simp add: readList_def open_one_def tab_text_def text_eval)

lemma raw_lines_line:
  "NL \<notin> set line \<Longrightarrow> raw_lines cur (line @ NL # rest) = (cur @ line) # raw_lines [] rest"
  by (induction line arbitrary: cur) auto

lemma raw_lines_terminated:
  "\<forall>line \<in> set lines. NL \<notin> set line \<Longrightarrow>
   raw_lines [] (concat (map (\<lambda>line. line @ [NL]) lines)) = lines"
proof (induction lines)
  case Nil
  then show ?case by simp
next
  case (Cons line lines)
  then show ?case using raw_lines_line[of line "[]"] by simp
qed

lemma scan_lines_terminated:
  assumes "\<forall>line \<in> set lines. NL \<notin> set line \<and> length line < MaxScanTokenSize"
  shows "scan_lines (concat (map (\<lambda>line. line @ [NL]) lines)) = map dropCR lines"
proof -
  have t: "takeWhile (\<lambda>line. length line < MaxScanTokenSize) lines = lines"
    using assms by (simp add: takeWhile_eq_all_conv)
  have r: "raw_lines [] (concat (map (\<lambda>line. line @ [NL]) lines)) = lines"
    using assms by (simp add: raw_lines_terminated)
  show ?thesis unfolding scan_lines_def r t ..
qed

lemma digit_not_NL: "n < 10 \<Longrightarrow> NL \<noteq> digit n"
  by (simp add: digit_def NL_def char_of_eq_iff take_bit_nat_eq_self eq_commute[of "CHR 0x0A"])

lemma decimal_no_NL: "NL \<notin> set (decimal n)"
proof (induction n rule: decimal.induct)
  case (1 n)
  show ?case
  proof (cases "n < 10")
    case True
    then show ?thesis by (simp add: decimal.simps[of n] digit_not_NL)
  next
    case False
    then show ?thesis using 1 by (simp add: decimal.simps[of n] digit_not_NL)
  qed
qed

lemma fmt_d_no_NL: "NL \<notin> set (fmt_d i)"
proof -
  have "NL \<noteq> CHR ''-''" by (simp add: NL_def)
  then show ?thesis by (simp add: fmt_d_def decimal_no_NL)
qed

lemma record_line_body: "record_line r = line_body r @ [NL]"
  by (simp add: record_line_def line_body_def)

lemma line_body_no_NL:
  "NL \<notin> set (Path r) \<Longrightarrow> NL \<notin> set (Hash r) \<Longrightarrow> NL \<notin> set (line_body r)"
  by (simp add: line_body_def fmt_d_no_NL) (simp add: NL_def TAB_def)

lemma dropCR_tab: "dropCR (p @ TAB # rest) = p @ TAB # dropCR rest"
  by (cases "rest = []") (simp_all add: dropCR_def TAB_def CR_def butlast_append)

lemma Split_first: "sep \<notin> set p \<Longrightarrow> hd (Split (p @ sep # rest) sep) = p"
  by (induction p) (auto split: list.splits simp: Split_nonempty)

lemma first_field_body:
  "TAB \<notin> set (Path r) \<Longrightarrow> first_field (dropCR (line_body r)) = Path r"
  unfolding line_body_def first_field_def append_Cons append_Nil
  by (simp add: dropCR_tab Split_first)

lemma body_not_delimiter: "dropCR (line_body r) \<noteq> splitLine"
proof -
  have "TAB \<in> set (dropCR (line_body r))"
    unfolding line_body_def append_Cons append_Nil by (simp only: dropCR_tab) simp
  moreover have "TAB \<notin> set splitLine" by (simp add: splitLine_def TAB_def)
  ultimately show ?thesis by metis
qed

lemma dropCR_delimiter: "dropCR splitLine = splitLine"
  by (simp add: dropCR_def splitLine_def CR_def)

lemma group_text_lines:
  "group_text v = concat (map (\<lambda>line. line @ [NL]) (splitLine # map line_body v))"
proof -
  have "concat (map record_line v) = concat (map (\<lambda>line. line @ [NL]) (map line_body v))"
    by (induction v) (simp_all add: record_line_body)
  then show ?thesis by (simp add: group_text_def)
qed

lemma save_text_lines:
  "concat (map (\<lambda>k. group_text (index [] l k)) ks) =
     concat (map (\<lambda>line. line @ [NL]) (list_lines ks l))"
proof (induction ks)
  case Nil
  then show ?case by (simp add: list_lines_def)
next
  case (Cons k ks)
  have "list_lines (k # ks) l = (splitLine # map line_body (index [] l k)) @ list_lines ks l"
    by (simp add: list_lines_def)
  then have "concat (map (\<lambda>line. line @ [NL]) (list_lines (k # ks) l)) =
               group_text (index [] l k) @ concat (map (\<lambda>line. line @ [NL]) (list_lines ks l))"
    by (simp only: map_append concat_append group_text_lines)
  with Cons show ?case by simp
qed

lemma index_records:
  "r \<in> set (index [] l k) \<Longrightarrow> \<exists>e \<in> set l. r \<in> set (snd e)"
proof -
  assume r: "r \<in> set (index [] l k)"
  then obtain v where v: "map_of l k = Some v" by (cases "map_of l k") (auto simp: index_def)
  then have "(k, v) \<in> set l" by (rule map_of_SomeD)
  moreover from r v have "r \<in> set v" by (simp add: index_def)
  ultimately show ?thesis by force
qed

lemma writable_index:
  "writable l \<Longrightarrow> r \<in> set (index [] l k) \<Longrightarrow> plain_record r"
  using index_records[of r l k] by (auto simp: writable_def list_all_iff)

lemma list_lines_ok:
  assumes "writable l" and "line \<in> set (list_lines ks l)"
  shows "NL \<notin> set line \<and> length line < MaxScanTokenSize"
proof -
  from assms(2) consider "line = splitLine"
    | k r where "r \<in> set (index [] l k)" "line = line_body r"
    by (auto simp: list_lines_def split: if_splits)
  then show ?thesis
  proof cases
    case 1
    then show ?thesis by (simp add: splitLine_def NL_def MaxScanTokenSize_def)
  next
    case 2
    from writable_index[OF assms(1) 2(1)] have p: "plain_record r" .
    then have "length (line_body r) < MaxScanTokenSize"
      by (simp add: plain_record_def record_line_body)
    with p 2(2) show ?thesis by (simp add: plain_record_def line_body_no_NL)
  qed
qed

lemma scan_saved:
  assumes "writable l"
  shows "scan_lines (concat (map (\<lambda>k. group_text (index [] l k)) ks)) =
           map dropCR (list_lines ks l)"
  unfolding save_text_lines
  by (rule scan_lines_terminated) (use list_lines_ok[OF assms] in blast)

lemma paths_of_group:
  "\<forall>r \<in> set v. TAB \<notin> set (Path r) \<Longrightarrow>
   map first_field (filter (\<lambda>line. line \<noteq> splitLine) (map dropCR (map line_body v))) = map Path v"
  by (induction v) (simp_all add: body_not_delimiter first_field_body)

lemma paths_of_lines:
  assumes "writable l"
  shows "map first_field (filter (\<lambda>line. line \<noteq> splitLine) (map dropCR (list_lines ks l))) =
           concat (group_paths ks l)"
proof (induction ks)
  case Nil
  then show ?case by (simp add: list_lines_def group_paths_def)
next
  case (Cons k ks)
  have "\<forall>r \<in> set (index [] l k). TAB \<notin> set (Path r)"
    using writable_index[OF assms] by (auto simp: plain_record_def)
  from paths_of_group[OF this] Cons show ?case
    by (simp add: list_lines_def group_paths_def dropCR_delimiter)
qed

lemma parse_groups_loose:
  "\<forall>line \<in> set ls. line \<noteq> splitLine \<Longrightarrow>
   parse_groups (ls @ rest) =
     (map first_field ls @ fst (parse_groups rest), snd (parse_groups rest))"
  by (induction ls) (auto simp: first_field_def split: prod.splits)

lemma parse_groups_lines:
  assumes "writable l"
  shows "parse_groups (map dropCR (list_lines ks l)) = ([], group_paths ks l)"
proof (induction ks)
  case Nil
  then show ?case by (simp add: list_lines_def group_paths_def)
next
  case (Cons k ks)
  let ?v = "index [] l k"
  let ?ls = "map dropCR (map line_body ?v)"
  have tab: "\<forall>r \<in> set ?v. TAB \<notin> set (Path r)"
    using writable_index[OF assms] by (auto simp: plain_record_def)
  have nd: "\<forall>line \<in> set ?ls. line \<noteq> splitLine"
    by (auto simp: body_not_delimiter)
  have ff: "map first_field ?ls = map Path ?v"
    using paths_of_group[OF tab] nd by (simp add: filter_id_conv[THEN iffD2])
  have "map dropCR (list_lines (k # ks) l) = splitLine # (?ls @ map dropCR (list_lines ks l))"
    by (simp add: list_lines_def dropCR_delimiter)
  then show ?case
    using parse_groups_loose[OF nd, of "map dropCR (list_lines ks l)"] Cons ff
    by (simp add: group_paths_def)
qed

lemma group_paths_entries:
  "distinct (keys l) \<Longrightarrow> group_paths (keys l) l = map (\<lambda>e. map Path (snd e)) l"
  unfolding group_paths_def keys_def
  by (simp add: index_entry[unfolded keys_def] cong: map_cong)

lemma group_paths_mset:
  assumes "reorders rng" "distinct (keys l)"
  shows "mset (group_paths (rng (keys l)) l) = mset (map (\<lambda>e. map Path (snd e)) l)"
proof -
  have "mset (group_paths (rng (keys l)) l) =
          image_mset (\<lambda>k. map Path (index [] l k)) (mset (rng (keys l)))"
    by (simp add: group_paths_def)
  also have "\<dots> = mset (group_paths (keys l) l)"
    using assms(1) by (simp add: reorders_def group_paths_def)
  finally show ?thesis by (simp add: group_paths_entries[OF assms(2)])
qed

lemma paths_of_groups: "paths_of l = concat (map (\<lambda>e. map Path (snd e)) l)"
  by (simp add: paths_of_def)

lemma mset_concat_perm: "mset xss = mset yss \<Longrightarrow> mset (concat xss) = mset (concat yss)"
  by (simp add: mset_concat flip: sum_mset_sum_list)

text \<open>
  C5, as amended. Let a result with pairwise different keys hold only records whose path
  has neither a tab nor a newline, whose hash has no newline, and whose line fits the
  scanner's buffer, and let \<^verbatim>\<open>saveList\<close> write it. Then \<^verbatim>\<open>readList\<close> returns from the
  written file the paths of the groups in the order written, which are the paths of the
  result as a multiset; and cutting the lines at the delimiter lines gives the groups
  of paths of the result, with nothing before the first delimiter.
\<close>

theorem roundtrip:
  assumes "reorders rng" and "distinct (keys l)" and "writable l"
    and "saveList os_Create rng f l = Inr text" and "os_OpenFile f = Inr text"
  shows "readList os_OpenFile [f] = Inr (concat (group_paths (rng (keys l)) l))
       \<and> mset (concat (group_paths (rng (keys l)) l)) = mset (paths_of l)
       \<and> parse_groups (scan_lines text) = ([], group_paths (rng (keys l)) l)
       \<and> mset (group_paths (rng (keys l)) l) = mset (map (\<lambda>e. map Path (snd e)) l)"
proof -
  let ?ks = "rng (keys l)"
  from assms(4) have tx: "text = concat (map (\<lambda>k. group_text (index [] l k)) ?ks)"
    by (auto simp: saveList_def split: if_splits option.splits)
  have sc: "scan_lines text = map dropCR (list_lines ?ks l)"
    unfolding tx by (rule scan_saved[OF assms(3)])
  have a: "readList os_OpenFile [f] = Inr (concat (group_paths ?ks l))"
    using assms(5) by (simp add: readList_def sc read_lines_eq paths_of_lines[OF assms(3)])
  have d: "mset (group_paths ?ks l) = mset (map (\<lambda>e. map Path (snd e)) l)"
    by (rule group_paths_mset[OF assms(1,2)])
  have b: "mset (concat (group_paths ?ks l)) = mset (paths_of l)"
    unfolding paths_of_groups by (rule mset_concat_perm[OF d])
  have c: "parse_groups (scan_lines text) = ([], group_paths ?ks l)"
    unfolding sc by (rule parse_groups_lines[OF assms(3)])
  show ?thesis by (intro conjI a b c d)
qed

theorem roundtrip_witness:
  "reorders (id :: string list \<Rightarrow> string list) \<and> distinct (keys ab_list) \<and> writable ab_list
   \<and> saveList create_ok id ''list.txt'' ab_list = Inr ab_text
   \<and> open_one ''list.txt'' ab_text ''list.txt'' = Inr ab_text
   \<and> readList (open_one ''list.txt'' ab_text) [''list.txt''] =
       Inr (concat (group_paths (id (keys ab_list)) ab_list))
   \<and> concat (group_paths (id (keys ab_list)) ab_list) = [''/r/A'', ''/r/B'']
   \<and> parse_groups (scan_lines ab_text) = ([], group_paths (id (keys ab_list)) ab_list)"
proof -
  have h1: "reorders (id :: string list \<Rightarrow> string list)" by (simp add: reorders_def)
  have h2: "distinct (keys ab_list)" by (simp add: keys_def ab_list_def)
  have h3: "writable ab_list"
    by (simp add: writable_def plain_record_def ab_list_def fileA_def fileB_def record_line_def
        fmt10 TAB_def NL_def MaxScanTokenSize_def)
  have h4: "saveList create_ok id ''list.txt'' ab_list = Inr ab_text"
    by (simp add: saveList_def create_ok_def ab_list_def ab_text_def group_text_def
        record_line_def fmt10 index_def keys_def fileA_def fileB_def)
  have h5: "open_one ''list.txt'' ab_text ''list.txt'' = Inr ab_text"
    by (simp add: open_one_def)
  note t = roundtrip[where rng = id and os_OpenFile = "open_one ''list.txt'' ab_text",
      OF h1 h2 h3 h4 h5]
  have v: "concat (group_paths (id (keys ab_list)) ab_list) = [''/r/A'', ''/r/B'']"
    by (simp add: group_paths_def keys_def index_def ab_list_def fileA_def fileB_def)
  show ?thesis
    by (intro conjI h1 h2 h3 h4 h5 v t[THEN conjunct1] t[THEN conjunct2, THEN conjunct2, THEN conjunct1])
qed

text \<open>
  C5, as stated, fails for a path with a tab: the path read back is cut at the tab.
\<close>

theorem roundtrip_counterexample:
  "saveList create_ok id ''list.txt'' tab_list = Inr tab_text
   \<and> readList (open_one ''list.txt'' tab_text) [''list.txt''] = Inr [''/r/a'', ''/r/B'']
   \<and> set [''/r/a'', ''/r/B''] \<noteq> set (paths_of tab_list)"
proof -
  have "''/r/a'' @ [TAB] @ ''b'' \<in> set (paths_of tab_list)"
    by (simp add: paths_of_def tab_list_def)
  moreover have "''/r/a'' @ [TAB] @ ''b'' \<notin> set [''/r/a'', ''/r/B'']"
    by simp
  ultimately have "set [''/r/a'', ''/r/B''] \<noteq> set (paths_of tab_list)"
    by metis
  with tab_save tab_read show ?thesis by simp
qed

text \<open>
  For a result without groups \<^verbatim>\<open>saveList\<close> writes nothing and returns an error. A path
  with a newline in it is read back as two paths.
\<close>

lemma saveList_empty: "saveList os_Create rng f [] = Inl ErrNoDuplicates"
  by (simp add: saveList_def)

lemma readList_newline_in_path:
  "readList (open_one ''list.txt'' (splitLine @ [NL] @ ''/r/a'' @ [NL] @ ''b'' @ [TAB] @ ''10B''
      @ [TAB] @ ''aa'' @ [NL])) [''list.txt''] = Inr [''/r/a'', ''b'']"
  by (simp add: readList_def open_one_def text_eval)

end
